theory Spec2Isabelle
  imports Complex_Main "HOL-Library.Multiset"
begin

section \<open>Node ids and adjacency lists (graph.go)\<close>

text \<open>
  \<open>type NI int32\<close>: a node number, used as a slice index. Node ids are kept as
  integers; the one place where the source converts a slice index (a Go \<open>int\<close>) to
  \<open>NI\<close> is written out with its 32-bit two's-complement wrap-around in \<open>NI_of_index\<close>.
\<close>

type_synonym NI = int

definition NI_of_index :: "nat \<Rightarrow> NI" where
  "NI_of_index n = ((int n + 2 ^ 31) mod 2 ^ 32) - 2 ^ 31"

subsection \<open>HasParallelSort\<close>

text \<open>
  The inner loop of \<open>HasParallelSort\<close>:
  \<^verbatim>\<open>for _, to := range t[1:] { if to == t0 { return NI(n), t0 }; t0 = to }\<close>.
  It yields the repeated target on an early return, and \<open>None\<close> when the loop runs out.
\<close>

fun scanParallel :: "NI \<Rightarrow> NI list \<Rightarrow> NI option" where
  "scanParallel t0 [] = None"
| "scanParallel t0 (to # ts) = (if to = t0 then Some t0 else scanParallel to ts)"

text \<open>
  The outer loop \<open>for n, to := range g\<close>, with the running index \<open>n\<close>. An empty slot
  is skipped (\<open>continue\<close>); otherwise the slot is copied, sorted with \<open>sort.Sort\<close>
  (ascending by \<open>Less\<close>, that is \<open>l[i] < l[j]\<close>) and scanned. When the loop runs out the
  result is \<open>-1, -1\<close>.
\<close>

fun hasParallelFrom :: "nat \<Rightarrow> NI list list \<Rightarrow> NI \<times> NI" where
  "hasParallelFrom n [] = (-1, -1)"
| "hasParallelFrom n (to # g) =
     (if length to = 0 then hasParallelFrom (Suc n) g
      else (let t = sort to in
            case scanParallel (hd t) (tl t) of
              Some d \<Rightarrow> (NI_of_index n, d)
            | None \<Rightarrow> hasParallelFrom (Suc n) g))"

definition HasParallelSort :: "NI list list \<Rightarrow> NI \<times> NI" where
  "HasParallelSort g = hasParallelFrom 0 g"

section \<open>Depth-first search and traversal (df/df.go)\<close>

subsection \<open>Values the engine works on\<close>

text \<open>
  Modelled from the spec: \<open>graph.Bits\<close>, whose declaration is not in the source at hand.
  The spec gives a bitset over node ids that is created sized to \<open>n\<close> bits, all clear
  (\<open>newBits\<close>), with a bit test and a bit set. A bitset is its size \<open>nbits\<close>, the
  number of bits it holds, and the number \<open>digits\<close> whose binary digits are the bits.
  \<open>zeroBits\<close> is Go's zero value \<open>graph.Bits{}\<close>, which holds no bit. The source sets
  bits in a zero value (\<open>df.go\<close> line 36 with line 101; \<open>var leaves graph.Bits\<close> in
  \<open>ExampleLabeledUndirected_Prim\<close>, which reads the leaves 2 and 4 back from it), so
  setting a bit beyond the size makes the bitset as large as the bit needs; within the
  size the size stays. A bit beyond the size reads as clear.
\<close>

record Bits =
  nbits :: nat
  digits :: nat

definition newBits :: "nat \<Rightarrow> Bits" where
  "newBits n = \<lparr>nbits = n, digits = 0\<rparr>"

definition zeroBits :: Bits where
  "zeroBits = \<lparr>nbits = 0, digits = 0\<rparr>"

definition Bits_Bit :: "Bits \<Rightarrow> nat \<Rightarrow> bool" where
  "Bits_Bit b n = bit (digits b) n"

definition Bits_SetBit :: "Bits \<Rightarrow> nat \<Rightarrow> Bits" where
  "Bits_SetBit b n = \<lparr>nbits = max (nbits b) (Suc n), digits = set_bit n (digits b)\<rparr>"

text \<open>
  A half arc of a labeled adjacency list, \<open>graph.Half{To, Label}\<close>, and the values
  that can arrive in the \<open>g interface{}\<close> argument of \<open>Search\<close>: a plain adjacency
  list, a labeled one, or a value of any other type.
\<close>

record Half =
  To :: NI
  Label :: int

datatype gval =
    AdjacencyList "NI list list"
  | LabeledAdjacencyList "Half list list"
  | OtherValue

text \<open>
  A computation of the engine returns a value and the new state, or panics (an index out
  of range, a negative bit index), or runs out of the recursion depth it was given.
\<close>

datatype ('a, 's) res = Ret 'a 's | Panic 's | Timeout

text \<open>
  The history of a run. \<open>Visit n\<close> is written when node \<open>n\<close> is met for the first time
  (its bit is set); the other events are written when a visitor is called, with the
  result of a conditional visitor. The engine never reads the history.
\<close>

datatype event =
    Visit NI
  | NodeCall NI
  | OkNodeCall NI bool
  | ArcCall NI nat
  | OkArcCall NI nat bool

text \<open>
  The configuration. The visitors are the caller's callbacks: they act on the caller's
  own state \<open>'u\<close>, and a conditional visitor also answers continue (\<open>True\<close>) or stop.
  \<open>rand\<close> is the \<open>Perm\<close> method of the caller's \<open>*rand.Rand\<close>, acting on the
  generator's state \<open>'r\<close>. \<open>visited\<close> is the caller's bitset, when one is supplied.
  \<open>None\<close> is Go's \<open>nil\<close>.
\<close>

record ('u, 'r) config =
  arcVisitor :: "(NI \<Rightarrow> nat \<Rightarrow> 'u \<Rightarrow> 'u) option"
  nodeVisitor :: "(NI \<Rightarrow> 'u \<Rightarrow> 'u) option"
  okArcVisitor :: "(NI \<Rightarrow> nat \<Rightarrow> 'u \<Rightarrow> bool \<times> 'u) option"
  okNodeVisitor :: "(NI \<Rightarrow> 'u \<Rightarrow> bool \<times> 'u) option"
  rand :: "('r \<Rightarrow> nat \<Rightarrow> nat list \<times> 'r) option"
  visited :: "Bits option"

definition config0 :: "('u, 'r) config" where
  "config0 = \<lparr>arcVisitor = None, nodeVisitor = None, okArcVisitor = None,
              okNodeVisitor = None, rand = None, visited = None\<rparr>"

text \<open>
  The memory a run works in: the adjacency list (its slots hold \<open>NI\<close> or \<open>Half\<close>
  entries), the visited bitset, the caller's state, the generator's state, the history.
\<close>

record ('g, 'u, 'r) store =
  gr :: "'g list list"
  vis :: Bits
  usr :: 'u
  rnd :: 'r
  trace :: "event list"

text \<open>Indexing a slice, \<open>xs[i]\<close>: \<open>None\<close> is the index-out-of-range panic.\<close>

definition index :: "'a list \<Rightarrow> int \<Rightarrow> 'a option" where
  "index xs i = (if 0 \<le> i \<and> nat i < length xs then Some (xs ! nat i) else None)"

text \<open>Calls of the visitors, written to the history.\<close>

definition callNode :: "(NI \<Rightarrow> 'u \<Rightarrow> 'u) \<Rightarrow> NI \<Rightarrow> ('g, 'u, 'r) store \<Rightarrow> ('g, 'u, 'r) store" where
  "callNode v n st = st\<lparr>usr := v n (usr st), trace := trace st @ [NodeCall n]\<rparr>"

definition callArc :: "(NI \<Rightarrow> nat \<Rightarrow> 'u \<Rightarrow> 'u) \<Rightarrow> NI \<Rightarrow> nat \<Rightarrow> ('g, 'u, 'r) store \<Rightarrow> ('g, 'u, 'r) store" where
  "callArc v n x st = st\<lparr>usr := v n x (usr st), trace := trace st @ [ArcCall n x]\<rparr>"

definition callOkNode :: "(NI \<Rightarrow> 'u \<Rightarrow> bool \<times> 'u) \<Rightarrow> NI \<Rightarrow> ('g, 'u, 'r) store \<Rightarrow> bool \<times> ('g, 'u, 'r) store" where
  "callOkNode v n st =
     (fst (v n (usr st)),
      st\<lparr>usr := snd (v n (usr st)), trace := trace st @ [OkNodeCall n (fst (v n (usr st)))]\<rparr>)"

definition callOkArc :: "(NI \<Rightarrow> nat \<Rightarrow> 'u \<Rightarrow> bool \<times> 'u) \<Rightarrow> NI \<Rightarrow> nat \<Rightarrow> ('g, 'u, 'r) store \<Rightarrow> bool \<times> ('g, 'u, 'r) store" where
  "callOkArc v n x st =
     (fst (v n x (usr st)),
      st\<lparr>usr := snd (v n x (usr st)), trace := trace st @ [OkArcCall n x (fst (v n x (usr st)))]\<rparr>)"

text \<open>\<open>r.Perm(k)\<close>: the generator yields a list of indices and moves on.\<close>

definition callPerm :: "('r \<Rightarrow> nat \<Rightarrow> nat list \<times> 'r) \<Rightarrow> nat \<Rightarrow> ('g, 'u, 'r) store \<Rightarrow> nat list \<times> ('g, 'u, 'r) store" where
  "callPerm r k st = (fst (r (rnd st) k), st\<lparr>rnd := snd (r (rnd st) k)\<rparr>)"

subsection \<open>The visited test\<close>

text \<open>
  \<open>config.visitedFunc\<close>: \<^verbatim>\<open>if b.Bit(n) != 0 { return true }; b.SetBit(n, 1); return false\<close>.
  A negative bit index panics.
\<close>

definition visitedFunc :: "NI \<Rightarrow> ('g, 'u, 'r) store \<Rightarrow> (bool, ('g, 'u, 'r) store) res" where
  "visitedFunc n st =
     (if n < 0 then Panic st
      else if Bits_Bit (vis st) (nat n) then Ret True st
      else Ret False (st\<lparr>vis := Bits_SetBit (vis st) (nat n), trace := trace st @ [Visit n]\<rparr>))"

subsection \<open>Loops over the arcs of a node\<close>

text \<open>
  The loops of the traversal closures, \<^verbatim>\<open>for ... { body }\<close>, over a list of arc indices:
  the indices \<open>0 .. len-1\<close> for \<open>range g[n]\<close>, the permutation for \<open>range r.Perm(len(to))\<close>.
\<close>

fun forEach :: "(nat \<Rightarrow> 's \<Rightarrow> (unit, 's) res) \<Rightarrow> nat list \<Rightarrow> 's \<Rightarrow> (unit, 's) res" where
  "forEach body [] st = Ret () st"
| "forEach body (x # xs) st =
     (case body x st of
        Ret u st' \<Rightarrow> forEach body xs st'
      | Panic st' \<Rightarrow> Panic st'
      | Timeout \<Rightarrow> Timeout)"

text \<open>
  The loops of the search closures, \<^verbatim>\<open>for ... { if !body { return false } }; return true\<close>.
\<close>

fun forWhile :: "(nat \<Rightarrow> 's \<Rightarrow> (bool, 's) res) \<Rightarrow> nat list \<Rightarrow> 's \<Rightarrow> (bool, 's) res" where
  "forWhile body [] st = Ret True st"
| "forWhile body (x # xs) st =
     (case body x st of
        Ret ok st' \<Rightarrow> if ok then forWhile body xs st' else Ret False st'
      | Panic st' \<Rightarrow> Panic st'
      | Timeout \<Rightarrow> Timeout)"

text \<open>\<open>traverse(to[x])\<close> and \<open>search(to[x])\<close>, where the index may be out of range.\<close>

definition atIndex :: "('g \<Rightarrow> NI) \<Rightarrow> 'g list \<Rightarrow> nat \<Rightarrow> (NI \<Rightarrow> 's \<Rightarrow> ('a, 's) res) \<Rightarrow> 's \<Rightarrow> ('a, 's) res" where
  "atIndex tgt to x f st = (if x < length to then f (tgt (to ! x)) st else Panic st)"

subsection \<open>Traversal\<close>

text \<open>
  The functions for plain and for labeled adjacency lists differ only in how the target
  of an arc is read (\<open>to\<close> against \<open>to.To\<close>), so each pair is one definition with the
  reading \<open>tgt\<close> as a parameter; \<open>adjFunc\<close> and \<open>labFunc\<close> below fix it.

  \<open>adjToTraverse\<close>, \<open>labToTraverse\<close>.
\<close>

definition toTraverse ::
  "('g \<Rightarrow> NI) \<Rightarrow> ('u, 'r) config \<Rightarrow> (NI \<Rightarrow> ('g, 'u, 'r) store \<Rightarrow> (unit, ('g, 'u, 'r) store) res)
     \<Rightarrow> NI \<Rightarrow> ('g, 'u, 'r) store \<Rightarrow> (unit, ('g, 'u, 'r) store) res" where
  "toTraverse tgt cf traverse =
     (case arcVisitor cf of
        Some v \<Rightarrow> (\<lambda>n st. case index (gr st) n of
                     None \<Rightarrow> Panic st
                   | Some to \<Rightarrow> forEach (\<lambda>x s. traverse (tgt (to ! x)) (callArc v n x s)) [0..<length to] st)
      | None \<Rightarrow> (\<lambda>n st. case index (gr st) n of
                     None \<Rightarrow> Panic st
                   | Some to \<Rightarrow> forEach (\<lambda>x s. traverse (tgt (to ! x)) s) [0..<length to] st))"

text \<open>\<open>adjRandTraverse\<close>, \<open>labRandTraverse\<close>.\<close>

definition randTraverse ::
  "('g \<Rightarrow> NI) \<Rightarrow> ('u, 'r) config \<Rightarrow> (NI \<Rightarrow> ('g, 'u, 'r) store \<Rightarrow> (unit, ('g, 'u, 'r) store) res)
     \<Rightarrow> ('r \<Rightarrow> nat \<Rightarrow> nat list \<times> 'r)
     \<Rightarrow> NI \<Rightarrow> ('g, 'u, 'r) store \<Rightarrow> (unit, ('g, 'u, 'r) store) res" where
  "randTraverse tgt cf traverse r =
     (case arcVisitor cf of
        Some v \<Rightarrow> (\<lambda>n st. case index (gr st) n of
                     None \<Rightarrow> Panic st
                   | Some to \<Rightarrow> (case callPerm r (length to) st of (p, st1) \<Rightarrow>
                       forEach (\<lambda>x s. atIndex tgt to x traverse (callArc v n x s)) p st1))
      | None \<Rightarrow> (\<lambda>n st. case index (gr st) n of
                     None \<Rightarrow> Panic st
                   | Some to \<Rightarrow> (case callPerm r (length to) st of (p, st1) \<Rightarrow>
                       forEach (\<lambda>x s. atIndex tgt to x traverse s) p st1)))"

text \<open>\<open>adjRecurseTraverse\<close>, \<open>labRecurseTraverse\<close>.\<close>

definition recurseTraverse ::
  "('g \<Rightarrow> NI) \<Rightarrow> ('u, 'r) config \<Rightarrow> (NI \<Rightarrow> ('g, 'u, 'r) store \<Rightarrow> (unit, ('g, 'u, 'r) store) res)
     \<Rightarrow> NI \<Rightarrow> ('g, 'u, 'r) store \<Rightarrow> (unit, ('g, 'u, 'r) store) res" where
  "recurseTraverse tgt cf traverse =
     (case rand cf of
        Some r \<Rightarrow> randTraverse tgt cf traverse r
      | None \<Rightarrow> toTraverse tgt cf traverse)"

text \<open>\<open>composeTraverseVisitor\<close>.\<close>

definition composeTraverseVisitor ::
  "('u, 'r) config \<Rightarrow> (NI \<Rightarrow> ('g, 'u, 'r) store \<Rightarrow> (unit, ('g, 'u, 'r) store) res)
     \<Rightarrow> NI \<Rightarrow> ('g, 'u, 'r) store \<Rightarrow> (unit, ('g, 'u, 'r) store) res" where
  "composeTraverseVisitor cf f =
     (case nodeVisitor cf of
        Some v \<Rightarrow> (\<lambda>n st. f n (callNode v n st))
      | None \<Rightarrow> f)"

text \<open>
  \<open>dfTraverseNodes.traverse\<close>: \<^verbatim>\<open>if !f.visited(n) { f.recurse(n) }\<close>, where
  \<open>f.recurse\<close> is built from \<open>traverse\<close> itself by \<open>mk\<close>. The first argument bounds the
  depth of the recursion.
\<close>

primrec traverse ::
  "nat \<Rightarrow> ((NI \<Rightarrow> ('g, 'u, 'r) store \<Rightarrow> (unit, ('g, 'u, 'r) store) res)
            \<Rightarrow> NI \<Rightarrow> ('g, 'u, 'r) store \<Rightarrow> (unit, ('g, 'u, 'r) store) res)
     \<Rightarrow> NI \<Rightarrow> ('g, 'u, 'r) store \<Rightarrow> (unit, ('g, 'u, 'r) store) res" where
  "traverse 0 mk = (\<lambda>n st. Timeout)"
| "traverse (Suc k) mk = (\<lambda>n st.
     case visitedFunc n st of
       Ret seen st' \<Rightarrow> if \<not> seen then mk (traverse k mk) n st' else Ret () st'
     | Panic st' \<Rightarrow> Panic st'
     | Timeout \<Rightarrow> Timeout)"

subsection \<open>Search\<close>

text \<open>\<open>adjToSearch\<close>, \<open>labToSearch\<close>.\<close>

definition toSearch ::
  "('g \<Rightarrow> NI) \<Rightarrow> ('u, 'r) config \<Rightarrow> (NI \<Rightarrow> ('g, 'u, 'r) store \<Rightarrow> (bool, ('g, 'u, 'r) store) res)
     \<Rightarrow> NI \<Rightarrow> ('g, 'u, 'r) store \<Rightarrow> (bool, ('g, 'u, 'r) store) res" where
  "toSearch tgt cf search =
     (case okArcVisitor cf of
        Some v \<Rightarrow> (\<lambda>n st. case index (gr st) n of
                     None \<Rightarrow> Panic st
                   | Some to \<Rightarrow> forWhile (\<lambda>x s. case callOkArc v n x s of (ok, s1) \<Rightarrow>
                                   if \<not> ok then Ret False s1 else search (tgt (to ! x)) s1)
                                 [0..<length to] st)
      | None \<Rightarrow> (case arcVisitor cf of
          Some v \<Rightarrow> (\<lambda>n st. case index (gr st) n of
                       None \<Rightarrow> Panic st
                     | Some to \<Rightarrow> forWhile (\<lambda>x s. search (tgt (to ! x)) (callArc v n x s))
                                   [0..<length to] st)
        | None \<Rightarrow> (\<lambda>n st. case index (gr st) n of
                       None \<Rightarrow> Panic st
                     | Some to \<Rightarrow> forWhile (\<lambda>x s. search (tgt (to ! x)) s) [0..<length to] st)))"

text \<open>\<open>adjRandSearch\<close>, \<open>labRandSearch\<close>.\<close>

definition randSearch ::
  "('g \<Rightarrow> NI) \<Rightarrow> ('u, 'r) config \<Rightarrow> (NI \<Rightarrow> ('g, 'u, 'r) store \<Rightarrow> (bool, ('g, 'u, 'r) store) res)
     \<Rightarrow> ('r \<Rightarrow> nat \<Rightarrow> nat list \<times> 'r)
     \<Rightarrow> NI \<Rightarrow> ('g, 'u, 'r) store \<Rightarrow> (bool, ('g, 'u, 'r) store) res" where
  "randSearch tgt cf search r =
     (case okArcVisitor cf of
        Some v \<Rightarrow> (\<lambda>n st. case index (gr st) n of
                     None \<Rightarrow> Panic st
                   | Some to \<Rightarrow> (case callPerm r (length to) st of (p, st1) \<Rightarrow>
                       forWhile (\<lambda>x s. case callOkArc v n x s of (ok, s1) \<Rightarrow>
                                   if \<not> ok then Ret False s1 else atIndex tgt to x search s1)
                                p st1))
      | None \<Rightarrow> (case arcVisitor cf of
          Some v \<Rightarrow> (\<lambda>n st. case index (gr st) n of
                       None \<Rightarrow> Panic st
                     | Some to \<Rightarrow> (case callPerm r (length to) st of (p, st1) \<Rightarrow>
                         forWhile (\<lambda>x s. atIndex tgt to x search (callArc v n x s)) p st1))
        | None \<Rightarrow> (\<lambda>n st. case index (gr st) n of
                       None \<Rightarrow> Panic st
                     | Some to \<Rightarrow> (case callPerm r (length to) st of (p, st1) \<Rightarrow>
                         forWhile (\<lambda>x s. atIndex tgt to x search s) p st1))))"

text \<open>\<open>adjRecurseSearch\<close>, \<open>labRecurseSearch\<close>.\<close>

definition recurseSearch ::
  "('g \<Rightarrow> NI) \<Rightarrow> ('u, 'r) config \<Rightarrow> (NI \<Rightarrow> ('g, 'u, 'r) store \<Rightarrow> (bool, ('g, 'u, 'r) store) res)
     \<Rightarrow> NI \<Rightarrow> ('g, 'u, 'r) store \<Rightarrow> (bool, ('g, 'u, 'r) store) res" where
  "recurseSearch tgt cf search =
     (case rand cf of
        Some r \<Rightarrow> randSearch tgt cf search r
      | None \<Rightarrow> toSearch tgt cf search)"

text \<open>\<open>composeSearchVisitor\<close>: \<open>v(n) && f(n)\<close> for a conditional visitor.\<close>

definition composeSearchVisitor ::
  "('u, 'r) config \<Rightarrow> (NI \<Rightarrow> ('g, 'u, 'r) store \<Rightarrow> (bool, ('g, 'u, 'r) store) res)
     \<Rightarrow> NI \<Rightarrow> ('g, 'u, 'r) store \<Rightarrow> (bool, ('g, 'u, 'r) store) res" where
  "composeSearchVisitor cf f =
     (case okNodeVisitor cf of
        Some v \<Rightarrow> (\<lambda>n st. case callOkNode v n st of (ok, st1) \<Rightarrow>
                     if ok then f n st1 else Ret False st1)
      | None \<Rightarrow> (case nodeVisitor cf of
          Some v \<Rightarrow> (\<lambda>n st. f n (callNode v n st))
        | None \<Rightarrow> f))"

text \<open>\<open>dfSearchNodes.search\<close>: \<open>f.visited(n) || f.recurse(n)\<close>.\<close>

primrec search ::
  "nat \<Rightarrow> ((NI \<Rightarrow> ('g, 'u, 'r) store \<Rightarrow> (bool, ('g, 'u, 'r) store) res)
            \<Rightarrow> NI \<Rightarrow> ('g, 'u, 'r) store \<Rightarrow> (bool, ('g, 'u, 'r) store) res)
     \<Rightarrow> NI \<Rightarrow> ('g, 'u, 'r) store \<Rightarrow> (bool, ('g, 'u, 'r) store) res" where
  "search 0 mk = (\<lambda>n st. Timeout)"
| "search (Suc k) mk = (\<lambda>n st.
     case visitedFunc n st of
       Ret seen st' \<Rightarrow> if seen then Ret True st' else mk (search k mk) n st'
     | Panic st' \<Rightarrow> Panic st'
     | Timeout \<Rightarrow> Timeout)"

subsection \<open>The entry points\<close>

text \<open>
  \<open>adjFunc\<close> and \<open>labFunc\<close>: the full traversal when no conditional visitor is
  configured, the search otherwise, with its final result dropped.
\<close>

definition dropResult :: "('a, 's) res \<Rightarrow> (unit, 's) res" where
  "dropResult r = (case r of Ret a st \<Rightarrow> Ret () st | Panic st \<Rightarrow> Panic st | Timeout \<Rightarrow> Timeout)"

definition dfFunc ::
  "('g \<Rightarrow> NI) \<Rightarrow> nat \<Rightarrow> ('u, 'r) config \<Rightarrow> NI \<Rightarrow> ('g, 'u, 'r) store \<Rightarrow> (unit, ('g, 'u, 'r) store) res" where
  "dfFunc tgt k cf =
     (if okNodeVisitor cf = None \<and> okArcVisitor cf = None
      then traverse k (\<lambda>t. composeTraverseVisitor cf (recurseTraverse tgt cf t))
      else (\<lambda>start st.
              dropResult (search k (\<lambda>s. composeSearchVisitor cf (recurseSearch tgt cf s)) start st)))"

definition adjFunc ::
  "nat \<Rightarrow> ('u, 'r) config \<Rightarrow> NI \<Rightarrow> (NI, 'u, 'r) store \<Rightarrow> (unit, (NI, 'u, 'r) store) res" where
  "adjFunc = dfFunc (\<lambda>to. to)"

definition labFunc ::
  "nat \<Rightarrow> ('u, 'r) config \<Rightarrow> NI \<Rightarrow> (Half, 'u, 'r) store \<Rightarrow> (unit, (Half, 'u, 'r) store) res" where
  "labFunc = dfFunc To"

text \<open>
  What the caller can see after \<open>Search\<close>: the graph value, the bitset \<open>cf.visited\<close>
  points to (\<open>None\<close> while it is nil), the caller's state, the generator, the history.
\<close>

record ('u, 'r) world =
  graph :: gval
  bits :: "Bits option"
  user :: 'u
  gen :: 'r
  events :: "event list"

datatype error = ErrNodeVisitors | ErrArcVisitors | ErrGraphType

definition enter :: "'g list list \<Rightarrow> Bits \<Rightarrow> 'u \<Rightarrow> 'r \<Rightarrow> ('g, 'u, 'r) store" where
  "enter t b u r = \<lparr>gr = t, vis = b, usr = u, rnd = r, trace = []\<rparr>"

definition leave :: "('g list list \<Rightarrow> gval) \<Rightarrow> ('g, 'u, 'r) store \<Rightarrow> ('u, 'r) world" where
  "leave wrap st = \<lparr>graph = wrap (gr st), bits = Some (vis st), user = usr st,
                    gen = rnd st, events = trace st\<rparr>"

definition finish ::
  "('g list list \<Rightarrow> gval) \<Rightarrow> (unit, ('g, 'u, 'r) store) res \<Rightarrow> (error option, ('u, 'r) world) res" where
  "finish wrap r =
     (case r of
        Ret u st \<Rightarrow> Ret None (leave wrap st)
      | Panic st \<Rightarrow> Panic (leave wrap st)
      | Timeout \<Rightarrow> Timeout)"

text \<open>
  \<open>Search\<close>. The options are applied to a zero configuration; the two conflicts are
  reported; a missing bitset is replaced by \<open>&graph.Bits{}\<close> (\<open>visitedBits\<close> is the
  bitset \<open>cf.visited\<close> points to from then on); the type switch selects
  \<open>adjFunc\<close> or \<open>labFunc\<close> or reports the graph type; the function runs from \<open>start\<close>
  and \<open>Search\<close> returns nil. \<open>u\<close> and \<open>r\<close> are the caller's state and the state of the
  caller's generator at the call; \<open>k\<close> bounds the depth of the recursion.
\<close>

definition visitedBits :: "('u, 'r) config \<Rightarrow> Bits" where
  "visitedBits cf = (case visited cf of None \<Rightarrow> zeroBits | Some b \<Rightarrow> b)"

definition configure :: "(('u, 'r) config \<Rightarrow> ('u, 'r) config) list \<Rightarrow> ('u, 'r) config" where
  "configure options = foldl (\<lambda>cf opt. opt cf) config0 options"

definition Search ::
  "nat \<Rightarrow> gval \<Rightarrow> NI \<Rightarrow> (('u, 'r) config \<Rightarrow> ('u, 'r) config) list \<Rightarrow> 'u \<Rightarrow> 'r
     \<Rightarrow> (error option, ('u, 'r) world) res" where
  "Search k g start options u r =
     (let cf = configure options in
      if nodeVisitor cf \<noteq> None \<and> okNodeVisitor cf \<noteq> None
      then Ret (Some ErrNodeVisitors)
             \<lparr>graph = g, bits = visited cf, user = u, gen = r, events = []\<rparr>
      else if arcVisitor cf \<noteq> None \<and> okArcVisitor cf \<noteq> None
      then Ret (Some ErrArcVisitors)
             \<lparr>graph = g, bits = visited cf, user = u, gen = r, events = []\<rparr>
      else
        (let b = visitedBits cf in
         case g of
           AdjacencyList t \<Rightarrow> finish AdjacencyList (adjFunc k cf start (enter t b u r))
         | LabeledAdjacencyList t \<Rightarrow>
             finish LabeledAdjacencyList (labFunc k cf start (enter t b u r))
         | OtherValue \<Rightarrow>
             Ret (Some ErrGraphType)
               \<lparr>graph = g, bits = Some b, user = u, gen = r, events = []\<rparr>))"

subsection \<open>Notions used to state the properties of the engine\<close>

text \<open>The nodes whose bit is set, the nodes a history visits, and the stop events.\<close>

definition marked :: "Bits \<Rightarrow> NI set" where
  "marked b = {n. 0 \<le> n \<and> Bits_Bit b (nat n)}"

fun visitsOf :: "event list \<Rightarrow> NI list" where
  "visitsOf [] = []"
| "visitsOf (Visit n # evs) = n # visitsOf evs"
| "visitsOf (e # evs) = visitsOf evs"

fun isStop :: "event \<Rightarrow> bool" where
  "isStop (OkNodeCall n ok) = (\<not> ok)"
| "isStop (OkArcCall n x ok) = (\<not> ok)"
| "isStop e = False"

text \<open>
  The arcs of an adjacency list as a relation on node ids, and the nodes reachable from a
  node along arcs whose nodes all lie outside a set \<open>V\<close> (outside the empty set: the
  reachable nodes).
\<close>

definition arcsOf :: "('g \<Rightarrow> NI) \<Rightarrow> 'g list list \<Rightarrow> (NI \<times> NI) set" where
  "arcsOf tgt g = {(u, v). 0 \<le> u \<and> nat u < length g \<and> v \<in> tgt ` set (g ! nat u)}"

definition reachAvoiding :: "('g \<Rightarrow> NI) \<Rightarrow> 'g list list \<Rightarrow> NI set \<Rightarrow> NI \<Rightarrow> NI set" where
  "reachAvoiding tgt g V n =
     (if n \<in> V then {} else {m. (n, m) \<in> {(u, v). (u, v) \<in> arcsOf tgt g \<and> u \<notin> V \<and> v \<notin> V}\<^sup>*})"

definition reachable :: "('g \<Rightarrow> NI) \<Rightarrow> 'g list list \<Rightarrow> NI \<Rightarrow> NI set" where
  "reachable tgt g n = {m. (n, m) \<in> (arcsOf tgt g)\<^sup>*}"

text \<open>
  The invariant of the data model: every arc leads to a node of the graph. And the
  contract of \<open>rand.Perm\<close>: a permutation of \<open>0 .. k-1\<close>.
\<close>

definition boundsOk :: "('g \<Rightarrow> NI) \<Rightarrow> 'g list list \<Rightarrow> bool" where
  "boundsOk tgt g = (\<forall>slot \<in> set g. \<forall>h \<in> set slot. 0 \<le> tgt h \<and> nat (tgt h) < length g)"

definition permOk :: "('r \<Rightarrow> nat \<Rightarrow> nat list \<times> 'r) \<Rightarrow> bool" where
  "permOk r = (\<forall>s k. mset (fst (r s k)) = mset [0..<k])"

definition randOk :: "('u, 'r) config \<Rightarrow> bool" where
  "randOk cf = (case rand cf of None \<Rightarrow> True | Some r \<Rightarrow> permOk r)"

text \<open>
  One state extends another: the graph is the same, no bit is cleared, and the history
  grows by events that visit exactly the newly marked nodes, each once.
\<close>

definition ext :: "('g, 'u, 'r) store \<Rightarrow> ('g, 'u, 'r) store \<Rightarrow> bool" where
  "ext st st' =
     (gr st' = gr st \<and> marked (vis st) \<subseteq> marked (vis st') \<and>
      (\<exists>evs. trace st' = trace st @ evs \<and> distinct (visitsOf evs) \<and>
             set (visitsOf evs) = marked (vis st') - marked (vis st)))"

text \<open>A property of the state a computation ends in, however it ends.\<close>

definition post :: "('s \<Rightarrow> bool) \<Rightarrow> ('a, 's) res \<Rightarrow> bool" where
  "post Q r = (case r of Ret a st \<Rightarrow> Q st | Panic st \<Rightarrow> Q st | Timeout \<Rightarrow> True)"

text \<open>
  The steps the closures are made of, each as one function of the configuration: the
  order of the arc indices, the call of the arc visitor and of the node visitor.
\<close>

definition arcOrder :: "('u, 'r) config \<Rightarrow> nat \<Rightarrow> ('g, 'u, 'r) store \<Rightarrow> nat list \<times> ('g, 'u, 'r) store" where
  "arcOrder cf k st = (case rand cf of Some r \<Rightarrow> callPerm r k st | None \<Rightarrow> ([0..<k], st))"

definition arcStep :: "('u, 'r) config \<Rightarrow> NI \<Rightarrow> nat \<Rightarrow> ('g, 'u, 'r) store \<Rightarrow> ('g, 'u, 'r) store" where
  "arcStep cf n x st = (case arcVisitor cf of Some v \<Rightarrow> callArc v n x st | None \<Rightarrow> st)"

definition nodeStep :: "('u, 'r) config \<Rightarrow> NI \<Rightarrow> ('g, 'u, 'r) store \<Rightarrow> ('g, 'u, 'r) store" where
  "nodeStep cf n st = (case nodeVisitor cf of Some v \<Rightarrow> callNode v n st | None \<Rightarrow> st)"

definition okArcStep :: "('u, 'r) config \<Rightarrow> NI \<Rightarrow> nat \<Rightarrow> ('g, 'u, 'r) store \<Rightarrow> bool \<times> ('g, 'u, 'r) store" where
  "okArcStep cf n x st =
     (case okArcVisitor cf of Some v \<Rightarrow> callOkArc v n x st | None \<Rightarrow> (True, arcStep cf n x st))"

definition okNodeStep :: "('u, 'r) config \<Rightarrow> NI \<Rightarrow> ('g, 'u, 'r) store \<Rightarrow> bool \<times> ('g, 'u, 'r) store" where
  "okNodeStep cf n st =
     (case okNodeVisitor cf of Some v \<Rightarrow> callOkNode v n st | None \<Rightarrow> (True, nodeStep cf n st))"

text \<open>The two recursive closures of \<open>dfFunc\<close>, named.\<close>

definition mkTraverse ::
  "('g \<Rightarrow> NI) \<Rightarrow> ('u, 'r) config \<Rightarrow> (NI \<Rightarrow> ('g, 'u, 'r) store \<Rightarrow> (unit, ('g, 'u, 'r) store) res)
     \<Rightarrow> NI \<Rightarrow> ('g, 'u, 'r) store \<Rightarrow> (unit, ('g, 'u, 'r) store) res" where
  "mkTraverse tgt cf t = composeTraverseVisitor cf (recurseTraverse tgt cf t)"

definition mkSearch ::
  "('g \<Rightarrow> NI) \<Rightarrow> ('u, 'r) config \<Rightarrow> (NI \<Rightarrow> ('g, 'u, 'r) store \<Rightarrow> (bool, ('g, 'u, 'r) store) res)
     \<Rightarrow> NI \<Rightarrow> ('g, 'u, 'r) store \<Rightarrow> (bool, ('g, 'u, 'r) store) res" where
  "mkSearch tgt cf s = composeSearchVisitor cf (recurseSearch tgt cf s)"

text \<open>The nodes of the graph that are not marked yet.\<close>

definition unmarked :: "('g, 'u, 'r) store \<Rightarrow> nat set" where
  "unmarked st = {i. i < length (gr st) \<and> \<not> Bits_Bit (vis st) i}"

text \<open>
  \<open>closedIn\<close>: node \<open>m\<close> is a node of the graph and each of its arcs leads into \<open>M\<close>.
  \<open>marks\<close>: after a call on node \<open>n\<close> that led from state \<open>st\<close> to state \<open>st'\<close>,
  \<open>n\<close> is marked, and every newly marked node is reachable from \<open>n\<close> outside the nodes
  marked before and has all its arcs leading to marked nodes.
\<close>

definition closedIn :: "('g \<Rightarrow> NI) \<Rightarrow> 'g list list \<Rightarrow> NI set \<Rightarrow> NI \<Rightarrow> bool" where
  "closedIn tgt g M m = (0 \<le> m \<and> nat m < length g \<and> (\<forall>h \<in> set (g ! nat m). tgt h \<in> M))"

definition marks :: "('g \<Rightarrow> NI) \<Rightarrow> NI \<Rightarrow> ('g, 'u, 'r) store \<Rightarrow> ('g, 'u, 'r) store \<Rightarrow> bool" where
  "marks tgt n st st' =
     (n \<in> marked (vis st') \<and>
      (\<forall>m \<in> marked (vis st') - marked (vis st).
         m \<in> reachAvoiding tgt (gr st) (marked (vis st)) n \<and>
         closedIn tgt (gr st) (marked (vis st')) m))"

text \<open>
  The same notions for the value passed to \<open>Search\<close>: whether it is an adjacency list
  that keeps the invariant, its number of nodes, and the nodes reachable from a node.
\<close>

definition graphOk :: "gval \<Rightarrow> bool" where
  "graphOk g =
     (case g of
        AdjacencyList t \<Rightarrow> boundsOk (\<lambda>to. to) t
      | LabeledAdjacencyList t \<Rightarrow> boundsOk To t
      | OtherValue \<Rightarrow> False)"

definition order :: "gval \<Rightarrow> nat" where
  "order g =
     (case g of
        AdjacencyList t \<Rightarrow> length t
      | LabeledAdjacencyList t \<Rightarrow> length t
      | OtherValue \<Rightarrow> 0)"

definition reachableFrom :: "gval \<Rightarrow> NI \<Rightarrow> NI set" where
  "reachableFrom g n =
     (case g of
        AdjacencyList t \<Rightarrow> reachable (\<lambda>to. to) t n
      | LabeledAdjacencyList t \<Rightarrow> reachable To t n
      | OtherValue \<Rightarrow> {})"

text \<open>The configuration asks for a full traversal: no conditional visitor.\<close>

definition traversalMode :: "('u, 'r) config \<Rightarrow> bool" where
  "traversalMode cf = (okNodeVisitor cf = None \<and> okArcVisitor cf = None)"

text \<open>The configuration passes the two checks of \<open>Search\<close>.\<close>

definition conflict :: "('u, 'r) config \<Rightarrow> bool" where
  "conflict cf =
     ((nodeVisitor cf \<noteq> None \<and> okNodeVisitor cf \<noteq> None) \<or>
      (arcVisitor cf \<noteq> None \<and> okArcVisitor cf \<noteq> None))"

text \<open>No bitset is supplied, or the supplied one, of whatever size, is all clear.\<close>

definition freshBits :: "('u, 'r) config \<Rightarrow> bool" where
  "freshBits cf = (case visited cf of None \<Rightarrow> True | Some b \<Rightarrow> digits b = 0)"

text \<open>
  \<open>stepRel cf R\<close>: the relation \<open>R\<close> between states is reflexive and transitive and
  holds across every single step the closures take under configuration \<open>cf\<close>.
\<close>

definition stepRel ::
  "('u, 'r) config \<Rightarrow> (('g, 'u, 'r) store \<Rightarrow> ('g, 'u, 'r) store \<Rightarrow> bool) \<Rightarrow> bool" where
  "stepRel cf R =
     ((\<forall>s. R s s) \<and> (\<forall>a b c. R a b \<longrightarrow> R b c \<longrightarrow> R a c) \<and>
      (\<forall>n s. R s (nodeStep cf n s)) \<and> (\<forall>n x s. R s (arcStep cf n x s)) \<and>
      (\<forall>n s. R s (snd (okNodeStep cf n s))) \<and> (\<forall>n x s. R s (snd (okArcStep cf n x s))) \<and>
      (\<forall>k s. R s (snd (arcOrder cf k s))) \<and> (\<forall>n s. post (R s) (visitedFunc n s)))"

text \<open>
  The frame of a run: the graph is never written; the generator moves only when a random
  source is configured; the caller's state changes only when a visitor is configured.
\<close>

definition noVisitor :: "('u, 'r) config \<Rightarrow> bool" where
  "noVisitor cf =
     (arcVisitor cf = None \<and> nodeVisitor cf = None \<and> okArcVisitor cf = None \<and>
      okNodeVisitor cf = None)"

definition frame ::
  "('u, 'r) config \<Rightarrow> ('g, 'u, 'r) store \<Rightarrow> ('g, 'u, 'r) store \<Rightarrow> bool" where
  "frame cf st st' =
     (gr st' = gr st \<and> (rand cf = None \<longrightarrow> rnd st' = rnd st) \<and>
      (noVisitor cf \<longrightarrow> usr st' = usr st))"

text \<open>
  Modelled from the spec: the option that supplies the caller's visited bitset (the
  option functions of package \<open>df\<close> are not in the source at hand; each sets one field
  of the configuration).
\<close>

definition Visited :: "Bits \<Rightarrow> ('u, 'r) config \<Rightarrow> ('u, 'r) config" where
  "Visited b cf = cf\<lparr>visited := Some b\<rparr>"

text \<open>The nodes marked in the caller's bitset, when there is one.\<close>

definition markedIn :: "Bits option \<Rightarrow> NI set" where
  "markedIn ob = (case ob of None \<Rightarrow> {} | Some b \<Rightarrow> marked b)"

text \<open>
  What a search adds to the history, by the way it ends: no stop event when it returns
  true or panics; when it returns false, a stop event at the very end and none before.
\<close>

definition added :: "('g, 'u, 'r) store \<Rightarrow> ('g, 'u, 'r) store \<Rightarrow> event list \<Rightarrow> bool" where
  "added st st' evs = (trace st' = trace st @ evs)"

definition stopSpec :: "('g, 'u, 'r) store \<Rightarrow> (bool, ('g, 'u, 'r) store) res \<Rightarrow> bool" where
  "stopSpec st r =
     (case r of
        Ret ok st' \<Rightarrow> (\<exists>evs. added st st' evs \<and>
           (if ok then filter isStop evs = []
            else evs \<noteq> [] \<and> isStop (last evs) \<and> filter isStop (butlast evs) = []))
      | Panic st' \<Rightarrow> (\<exists>evs. added st st' evs \<and> filter isStop evs = [])
      | Timeout \<Rightarrow> True)"

text \<open>
  The calls of the node visitor in a history; the caller's state after the visitor calls
  of a history, replayed in order; and a history in which the node visitor, if one is
  configured, is called exactly at the visits.
\<close>

fun nodeCallsOf :: "event list \<Rightarrow> NI list" where
  "nodeCallsOf [] = []"
| "nodeCallsOf (NodeCall n # evs) = n # nodeCallsOf evs"
| "nodeCallsOf (e # evs) = nodeCallsOf evs"

fun replayEvent :: "('u, 'r) config \<Rightarrow> 'u \<Rightarrow> event \<Rightarrow> 'u" where
  "replayEvent cf u (Visit n) = u"
| "replayEvent cf u (NodeCall n) = (case nodeVisitor cf of Some v \<Rightarrow> v n u | None \<Rightarrow> u)"
| "replayEvent cf u (OkNodeCall n ok) =
     (case okNodeVisitor cf of Some v \<Rightarrow> snd (v n u) | None \<Rightarrow> u)"
| "replayEvent cf u (ArcCall n x) = (case arcVisitor cf of Some v \<Rightarrow> v n x u | None \<Rightarrow> u)"
| "replayEvent cf u (OkArcCall n x ok) =
     (case okArcVisitor cf of Some v \<Rightarrow> snd (v n x u) | None \<Rightarrow> u)"

definition replay :: "('u, 'r) config \<Rightarrow> event list \<Rightarrow> 'u \<Rightarrow> 'u" where
  "replay cf evs u = foldl (replayEvent cf) u evs"

definition pairedEvs :: "('u, 'r) config \<Rightarrow> event list \<Rightarrow> bool" where
  "pairedEvs cf evs =
     (nodeCallsOf evs = (if nodeVisitor cf = None then [] else visitsOf evs))"

definition paired ::
  "('u, 'r) config \<Rightarrow> ('g, 'u, 'r) store \<Rightarrow> ('g, 'u, 'r) store \<Rightarrow> bool" where
  "paired cf st st' = (\<exists>evs. added st st' evs \<and> pairedEvs cf evs)"

definition replayed ::
  "('u, 'r) config \<Rightarrow> ('g, 'u, 'r) store \<Rightarrow> ('g, 'u, 'r) store \<Rightarrow> bool" where
  "replayed cf st st' = (\<exists>evs. added st st' evs \<and> usr st' = replay cf evs (usr st))"

text \<open>The nodes reachable from a node of the value passed to \<open>Search\<close>, outside \<open>V\<close>.\<close>

definition reachAvoidingFrom :: "gval \<Rightarrow> NI set \<Rightarrow> NI \<Rightarrow> NI set" where
  "reachAvoidingFrom g V n =
     (case g of
        AdjacencyList t \<Rightarrow> reachAvoiding (\<lambda>to. to) t V n
      | LabeledAdjacencyList t \<Rightarrow> reachAvoiding To t V n
      | OtherValue \<Rightarrow> {})"

text \<open>
  Two states, two results, two worlds that agree in everything but the size of the
  bitset: the same graph, caller's state, generator, history and bits.
\<close>

definition sim :: "('g, 'u, 'r) store \<Rightarrow> ('g, 'u, 'r) store \<Rightarrow> bool" where
  "sim st st' =
     (gr st' = gr st \<and> usr st' = usr st \<and> rnd st' = rnd st \<and> trace st' = trace st \<and>
      digits (vis st') = digits (vis st))"

definition simRes :: "('a, ('g, 'u, 'r) store) res \<Rightarrow> ('a, ('g, 'u, 'r) store) res \<Rightarrow> bool" where
  "simRes r r' =
     (case r of
        Ret a st \<Rightarrow> (case r' of Ret a' st' \<Rightarrow> a' = a \<and> sim st st' | Panic st' \<Rightarrow> False
                               | Timeout \<Rightarrow> False)
      | Panic st \<Rightarrow> (case r' of Ret a' st' \<Rightarrow> False | Panic st' \<Rightarrow> sim st st'
                               | Timeout \<Rightarrow> False)
      | Timeout \<Rightarrow> (case r' of Ret a' st' \<Rightarrow> False | Panic st' \<Rightarrow> False | Timeout \<Rightarrow> True))"

definition keepsSim :: "(('g, 'u, 'r) store \<Rightarrow> ('a, ('g, 'u, 'r) store) res) \<Rightarrow> bool" where
  "keepsSim f = (\<forall>s s'. sim s s' \<longrightarrow> simRes (f s) (f s'))"

definition sameWorld :: "('u, 'r) world \<Rightarrow> ('u, 'r) world \<Rightarrow> bool" where
  "sameWorld w w' =
     (graph w' = graph w \<and> user w' = user w \<and> gen w' = gen w \<and> events w' = events w \<and>
      map_option digits (bits w') = map_option digits (bits w) \<and>
      markedIn (bits w') = markedIn (bits w))"

definition sameRun ::
  "(error option, ('u, 'r) world) res \<Rightarrow> (error option, ('u, 'r) world) res \<Rightarrow> bool" where
  "sameRun r r' =
     (case r of
        Ret e w \<Rightarrow> (case r' of Ret e' w' \<Rightarrow> e' = e \<and> sameWorld w w' | Panic w' \<Rightarrow> False
                              | Timeout \<Rightarrow> False)
      | Panic w \<Rightarrow> (case r' of Ret e' w' \<Rightarrow> False | Panic w' \<Rightarrow> sameWorld w w'
                              | Timeout \<Rightarrow> False)
      | Timeout \<Rightarrow> (case r' of Ret e' w' \<Rightarrow> False | Panic w' \<Rightarrow> False | Timeout \<Rightarrow> True))"

section \<open>Minimum spanning forest: Kruskal\<close>

text \<open>
  The types the tests of \<open>mst_test.go\<close> build: a labeled edge
  (\<open>graph.LabeledEdge{graph.Edge{N1, N2}, LI}\<close>) and a weighted edge list
  (\<open>graph.WeightedEdgeList{Order, WeightFunc, Edges}\<close>). A weight is a \<open>float64\<close>
  in the source and a real number here.
\<close>

record LabeledEdge =
  N1 :: NI
  N2 :: NI
  LI :: int

record WeightedEdgeList =
  Order :: nat
  WeightFunc :: "int \<Rightarrow> real"
  Edges :: "LabeledEdge list"

text \<open>
  Modelled from the spec: the disjoint-set forest of \<open>Kruskal\<close> (not in the source at
  hand), over the node ids \<open>0 .. n-1\<close>, with union by rank and path compression.
  \<open>ufRoot\<close> follows parent pointers to a root; its first argument bounds the number of
  steps, and a path in a forest over \<open>n\<close> nodes has fewer than \<open>n\<close> of them.
  \<open>ufCompress\<close> points every node on the path from \<open>x\<close> at the root \<open>r\<close>.
\<close>

record UnionFind =
  parent :: "nat list"
  rank :: "nat list"

definition ufNew :: "nat \<Rightarrow> UnionFind" where
  "ufNew n = \<lparr>parent = [0..<n], rank = replicate n 0\<rparr>"

fun ufRoot :: "nat \<Rightarrow> nat list \<Rightarrow> nat \<Rightarrow> nat" where
  "ufRoot 0 p x = x"
| "ufRoot (Suc k) p x = (if p ! x = x then x else ufRoot k p (p ! x))"

fun ufCompress :: "nat \<Rightarrow> nat list \<Rightarrow> nat \<Rightarrow> nat \<Rightarrow> nat list" where
  "ufCompress 0 p r x = p"
| "ufCompress (Suc k) p r x = (if p ! x = x then p else ufCompress k (p[x := r]) r (p ! x))"

definition ufFind :: "UnionFind \<Rightarrow> nat \<Rightarrow> nat \<times> UnionFind" where
  "ufFind uf x =
     (let n = length (parent uf); r = ufRoot n (parent uf) x
      in (r, uf\<lparr>parent := ufCompress n (parent uf) r x\<rparr>))"

definition ufLink :: "UnionFind \<Rightarrow> nat \<Rightarrow> nat \<Rightarrow> UnionFind" where
  "ufLink uf rx ry =
     (if rank uf ! rx < rank uf ! ry then uf\<lparr>parent := (parent uf)[rx := ry]\<rparr>
      else if rank uf ! ry < rank uf ! rx then uf\<lparr>parent := (parent uf)[ry := rx]\<rparr>
      else uf\<lparr>parent := (parent uf)[ry := rx], rank := (rank uf)[rx := Suc (rank uf ! rx)]\<rparr>)"

text \<open>
  Modelled from the spec: adding an edge to the output undirected graph, both
  reciprocal arcs, each appended to the slot of its node (the order in which
  \<open>ExampleWeightedEdgeList_Kruskal\<close> prints them).
\<close>

definition addEdge :: "Half list list \<Rightarrow> LabeledEdge \<Rightarrow> Half list list" where
  "addEdge g e =
     (let a = nat (N1 e); b = nat (N2 e);
          g1 = g[a := g ! a @ [\<lparr>To = N2 e, Label = LI e\<rparr>]]
      in if a = b then g1 else g1[b := g1 ! b @ [\<lparr>To = N1 e, Label = LI e\<rparr>]])"

text \<open>
  Modelled from the spec: the scan of \<open>KruskalSorted\<close> (not in the source at hand).
  Each edge in turn is accepted when its end points lie in different sets: both arcs are
  added to the output graph, the weight to the total, and the sets are united; otherwise
  the edge is skipped. An end point that is no node of the graph is the
  index-out-of-range panic, \<open>None\<close>.
\<close>

fun kruskalScan ::
  "(int \<Rightarrow> real) \<Rightarrow> LabeledEdge list \<Rightarrow> UnionFind \<Rightarrow> Half list list \<Rightarrow> real
     \<Rightarrow> (Half list list \<times> real) option" where
  "kruskalScan w [] uf g acc = Some (g, acc)"
| "kruskalScan w (e # es) uf g acc =
     (if N1 e < 0 \<or> N2 e < 0 \<or> nat (N1 e) \<ge> length g \<or> nat (N2 e) \<ge> length g then None
      else (case ufFind uf (nat (N1 e)) of (r1, uf1) \<Rightarrow>
            case ufFind uf1 (nat (N2 e)) of (r2, uf2) \<Rightarrow>
              if r1 = r2 then kruskalScan w es uf2 g acc
              else kruskalScan w es (ufLink uf2 r1 r2) (addEdge g e) (acc + w (LI e))))"

definition KruskalSorted :: "WeightedEdgeList \<Rightarrow> (Half list list \<times> real) option" where
  "KruskalSorted l =
     kruskalScan (WeightFunc l) (Edges l) (ufNew (Order l)) (replicate (Order l) []) 0"

text \<open>
  Modelled from the spec: \<open>Kruskal\<close> (not in the source at hand) sorts the edges
  ascending by weight, stably (ties keep their order), and scans them as
  \<open>KruskalSorted\<close> does.
\<close>

definition Kruskal :: "WeightedEdgeList \<Rightarrow> (Half list list \<times> real) option" where
  "Kruskal l = KruskalSorted (l\<lparr>Edges := sort_key (\<lambda>e. WeightFunc l (LI e)) (Edges l)\<rparr>)"

text \<open>
  Notions to state what \<open>Kruskal\<close> returns: the arcs of the output graph as pairs, the
  weight of a list of edges, and the spanning trees of an edge list on \<open>n\<close> nodes, which
  are its sublists of \<open>n - 1\<close> edges (\<open>sublistsOf\<close> lists the sublists of a given length)
  that connect every node to node 0 (\<open>grow\<close> adds the nodes one edge away from a list
  of nodes).
\<close>

definition arcPairs :: "Half list list \<Rightarrow> (NI \<times> NI) set" where
  "arcPairs g = set (concat (map (\<lambda>(n, hs). map (\<lambda>h. (int n, To h)) hs) (enumerate 0 g)))"

definition weightOf :: "(int \<Rightarrow> real) \<Rightarrow> LabeledEdge list \<Rightarrow> real" where
  "weightOf w es = sum_list (map (\<lambda>e. w (LI e)) es)"

definition grow :: "LabeledEdge list \<Rightarrow> NI list \<Rightarrow> NI list" where
  "grow es ns =
     remdups (ns @ concat (map (\<lambda>e. (if N1 e \<in> set ns then [N2 e] else []) @
                                      (if N2 e \<in> set ns then [N1 e] else [])) es))"

definition connects :: "nat \<Rightarrow> LabeledEdge list \<Rightarrow> bool" where
  "connects n es = (set (map int [0..<n]) \<subseteq> set ((grow es ^^ n) [0]))"

fun sublistsOf :: "nat \<Rightarrow> 'a list \<Rightarrow> 'a list list" where
  "sublistsOf 0 xs = [[]]"
| "sublistsOf (Suc k) [] = []"
| "sublistsOf (Suc k) (x # xs) = map ((#) x) (sublistsOf k xs) @ sublistsOf (Suc k) xs"

definition spanningTrees :: "WeightedEdgeList \<Rightarrow> LabeledEdge list list" where
  "spanningTrees l = filter (connects (Order l)) (sublistsOf (Order l - 1) (Edges l))"

text \<open>
  The graph of \<open>ExampleWeightedEdgeList_Kruskal\<close>, its edges in the order in which the
  example adds them, and of \<open>ExampleWeightedEdgeList_KruskalSorted\<close>, its edges sorted by
  weight. The weight of an edge is its label.
\<close>

definition exampleEdges :: WeightedEdgeList where
  "exampleEdges = \<lparr>Order = 5, WeightFunc = real_of_int, Edges =
     [\<lparr>N1 = 0, N2 = 1, LI = 30\<rparr>, \<lparr>N1 = 0, N2 = 4, LI = 10\<rparr>, \<lparr>N1 = 1, N2 = 2, LI = 50\<rparr>,
      \<lparr>N1 = 1, N2 = 4, LI = 40\<rparr>, \<lparr>N1 = 2, N2 = 3, LI = 20\<rparr>, \<lparr>N1 = 2, N2 = 4, LI = 60\<rparr>,
      \<lparr>N1 = 3, N2 = 4, LI = 70\<rparr>]\<rparr>"


definition exampleTree :: "Half list list" where
  "exampleTree =
     [[\<lparr>To = 4, Label = 10\<rparr>, \<lparr>To = 1, Label = 30\<rparr>],
      [\<lparr>To = 0, Label = 30\<rparr>, \<lparr>To = 2, Label = 50\<rparr>],
      [\<lparr>To = 3, Label = 20\<rparr>, \<lparr>To = 1, Label = 50\<rparr>],
      [\<lparr>To = 2, Label = 20\<rparr>],
      [\<lparr>To = 0, Label = 10\<rparr>]]"




section \<open>Connectivity: strongly connected components and topological order\<close>

subsection \<open>Tarjan\<close>

text \<open>
  Modelled from the spec: \<open>Tarjan\<close> (not in the source at hand; only
  \<open>ExampleAdjacencyList_Tarjan\<close> is). A single depth-first walk keeps, per node, a
  discovery index and a low-link, and an auxiliary stack; \<open>emitted\<close> collects the
  components in the order in which they are found.
\<close>

record tarjan =
  indexOf :: "nat option list"
  lowlink :: "nat list"
  stack :: "NI list"
  counter :: nat
  emitted :: "NI list list"

definition tarjanInit :: "nat \<Rightarrow> tarjan" where
  "tarjanInit n = \<lparr>indexOf = replicate n None, lowlink = replicate n 0, stack = [],
                   counter = 0, emitted = []\<rparr>"

text \<open>A node is discovered: it gets the next index, its low-link is that index, it is pushed.\<close>

definition discover :: "NI \<Rightarrow> tarjan \<Rightarrow> tarjan" where
  "discover v st =
     st\<lparr>indexOf := (indexOf st)[nat v := Some (counter st)],
        lowlink := (lowlink st)[nat v := counter st],
        stack := v # stack st,
        counter := Suc (counter st)\<rparr>"

definition lowerTo :: "NI \<Rightarrow> nat \<Rightarrow> tarjan \<Rightarrow> tarjan" where
  "lowerTo v l st = st\<lparr>lowlink := (lowlink st)[nat v := min (lowlink st ! nat v) l]\<rparr>"

text \<open>
  The pop that emits a component: the stack down to and including the node \<open>v\<close>, in
  the order popped.
\<close>

definition popTo :: "NI \<Rightarrow> tarjan \<Rightarrow> tarjan" where
  "popTo v st =
     st\<lparr>stack := tl (dropWhile (\<lambda>w. w \<noteq> v) (stack st)),
        emitted := emitted st @ [takeWhile (\<lambda>w. w \<noteq> v) (stack st) @ [v]]\<rparr>"

text \<open>
  The walk from node \<open>v\<close> and the loop over its arcs. An arc to an undiscovered node
  descends and takes over the low-link found there; an arc to a node still on the stack
  takes over its index. The first argument bounds the depth of the recursion; an arc to
  no node of the graph is the index-out-of-range panic.
\<close>

fun strongconnect :: "nat \<Rightarrow> NI list list \<Rightarrow> NI \<Rightarrow> tarjan \<Rightarrow> (unit, tarjan) res"
  and scArcs :: "nat \<Rightarrow> NI list list \<Rightarrow> NI \<Rightarrow> NI list \<Rightarrow> tarjan \<Rightarrow> (unit, tarjan) res" where
  "strongconnect 0 g v st = Timeout"
| "strongconnect (Suc k) g v st =
     (case scArcs k g v (g ! nat v) (discover v st) of
        Ret u st' \<Rightarrow>
          Ret () (if indexOf st' ! nat v = Some (lowlink st' ! nat v) then popTo v st' else st')
      | Panic st' \<Rightarrow> Panic st'
      | Timeout \<Rightarrow> Timeout)"
| "scArcs k g v [] st = Ret () st"
| "scArcs k g v (w # ws) st =
     (if w < 0 \<or> nat w \<ge> length g then Panic st
      else (case indexOf st ! nat w of
              None \<Rightarrow>
                (case strongconnect k g w st of
                   Ret u st' \<Rightarrow> scArcs k g v ws (lowerTo v (lowlink st' ! nat w) st')
                 | Panic st' \<Rightarrow> Panic st'
                 | Timeout \<Rightarrow> Timeout)
            | Some i \<Rightarrow>
                if w \<in> set (stack st) then scArcs k g v ws (lowerTo v i st)
                else scArcs k g v ws st))"

text \<open>
  \<open>Tarjan\<close>: the walk restarts from every node not yet discovered, in ascending order.
  The recursion is never deeper than the graph has nodes, which is the bound it is given.
\<close>

fun tarjanFrom :: "NI list list \<Rightarrow> nat list \<Rightarrow> tarjan \<Rightarrow> (unit, tarjan) res" where
  "tarjanFrom g [] st = Ret () st"
| "tarjanFrom g (n # ns) st =
     (case indexOf st ! n of
        Some i \<Rightarrow> tarjanFrom g ns st
      | None \<Rightarrow>
          (case strongconnect (length g) g (int n) st of
             Ret u st' \<Rightarrow> tarjanFrom g ns st'
           | Panic st' \<Rightarrow> Panic st'
           | Timeout \<Rightarrow> Timeout))"

definition Tarjan :: "NI list list \<Rightarrow> (NI list list, unit) res" where
  "Tarjan g =
     (case tarjanFrom g [0..<length g] (tarjanInit (length g)) of
        Ret u st \<Rightarrow> Ret (emitted st) ()
      | Panic st \<Rightarrow> Panic ()
      | Timeout \<Rightarrow> Timeout)"

text \<open>The graph of \<open>ExampleAdjacencyList_Tarjan\<close>.\<close>

definition tarjanExample :: "NI list list" where
  "tarjanExample = [[1], [4, 2, 5], [3, 6], [2, 7], [5, 0], [6], [5], [3, 6]]"

subsection \<open>Topological sort\<close>

text \<open>
  Modelled from the spec: \<open>Topological\<close> (not in the source at hand; only
  \<open>ExampleAdjacencyList_Topological\<close> is): a depth-first postorder over all nodes,
  restarting from each unvisited node in ascending order, the result reversed, or an
  empty result if a cycle is detected anywhere. \<open>visit\<close> tells a node that is fully
  finished (it is in the postorder \<open>fin\<close>) from one on the current recursion stack
  \<open>S\<close>, which is the detected cycle, and answers whether to go on. The first argument
  bounds the depth of the recursion; an arc to no node of the graph is the
  index-out-of-range panic.
\<close>

fun visit :: "nat \<Rightarrow> NI list list \<Rightarrow> NI list \<Rightarrow> NI \<Rightarrow> NI list \<Rightarrow> (bool, NI list) res"
  and visitAll :: "nat \<Rightarrow> NI list list \<Rightarrow> NI list \<Rightarrow> NI list \<Rightarrow> NI list \<Rightarrow> (bool, NI list) res" where
  "visit 0 g S n fin = Timeout"
| "visit (Suc k) g S n fin =
     (if n \<in> set fin then Ret True fin
      else if n \<in> set S then Ret False fin
      else (case index g n of
              None \<Rightarrow> Panic fin
            | Some to \<Rightarrow>
                (case visitAll k g (n # S) to fin of
                   Ret ok fin' \<Rightarrow> if ok then Ret True (fin' @ [n]) else Ret False fin'
                 | Panic fin' \<Rightarrow> Panic fin'
                 | Timeout \<Rightarrow> Timeout)))"
| "visitAll k g S [] fin = Ret True fin"
| "visitAll k g S (m # ms) fin =
     (case visit k g S m fin of
        Ret ok fin' \<Rightarrow> if ok then visitAll k g S ms fin' else Ret False fin'
      | Panic fin' \<Rightarrow> Panic fin'
      | Timeout \<Rightarrow> Timeout)"

fun topoFrom :: "NI list list \<Rightarrow> nat list \<Rightarrow> NI list \<Rightarrow> (bool, NI list) res" where
  "topoFrom g [] fin = Ret True fin"
| "topoFrom g (n # ns) fin =
     (case visit (Suc (length g)) g [] (int n) fin of
        Ret ok fin' \<Rightarrow> if ok then topoFrom g ns fin' else Ret False fin'
      | Panic fin' \<Rightarrow> Panic fin'
      | Timeout \<Rightarrow> Timeout)"

text \<open>
  The recursion stack holds distinct nodes, so the recursion is never deeper than the
  graph has nodes; \<open>Topological\<close> gives \<open>visit\<close> one more than that.
\<close>

definition Topological :: "NI list list \<Rightarrow> (NI list, unit) res" where
  "Topological g =
     (case topoFrom g [0..<length g] [] of
        Ret ok fin \<Rightarrow> Ret (if ok then rev fin else []) ()
      | Panic fin \<Rightarrow> Panic ()
      | Timeout \<Rightarrow> Timeout)"

text \<open>
  A graph has a cycle when some node reaches itself along at least one arc. In an
  ordering, \<open>u\<close> comes strictly before \<open>v\<close> when it stands at a smaller position.
\<close>

definition hasCycle :: "NI list list \<Rightarrow> bool" where
  "hasCycle g = (\<exists>n. (n, n) \<in> (arcsOf (\<lambda>to. to) g)\<^sup>+)"

definition comesBefore :: "NI list \<Rightarrow> NI \<Rightarrow> NI \<Rightarrow> bool" where
  "comesBefore ord u v = (\<exists>i j. i < j \<and> j < length ord \<and> ord ! i = u \<and> ord ! j = v)"

text \<open>
  The invariants of the walk. \<open>closedPost\<close>: the postorder lists nodes of the graph,
  none twice, and every arc of a listed node leads to a node listed earlier. \<open>chain\<close>: each node of the
  recursion stack has an arc to the node pushed after it.
\<close>

definition closedPost :: "NI list list \<Rightarrow> NI list \<Rightarrow> bool" where
  "closedPost g fin =
     (distinct fin \<and> (\<forall>x \<in> set fin. 0 \<le> x \<and> nat x < length g) \<and>
      (\<forall>i < length fin. \<forall>v. (fin ! i, v) \<in> arcsOf (\<lambda>to. to) g \<longrightarrow> (\<exists>j < i. fin ! j = v)))"

text \<open>
  What a call of the walk leaves behind when it started from the postorder \<open>fin\<close> with
  the recursion stack \<open>S\<close>: either it answers to go on, with a longer postorder that
  keeps the invariant, lists the nodes \<open>X\<close> it was called for and no node of the stack;
  or it answers to stop, and the graph has a cycle.
\<close>

definition walked ::
  "NI list list \<Rightarrow> NI list \<Rightarrow> NI list \<Rightarrow> NI set \<Rightarrow> (bool, NI list) res \<Rightarrow> bool" where
  "walked g S fin X r =
     ((\<exists>fin'. r = Ret True fin' \<and> closedPost g fin' \<and> (\<exists>new. fin' = fin @ new) \<and>
              X \<subseteq> set fin' \<and> set S \<inter> set fin' = {}) \<or>
      (\<exists>fin'. r = Ret False fin' \<and> hasCycle g))"

fun chain :: "NI list list \<Rightarrow> NI list \<Rightarrow> bool" where
  "chain g [] = True"
| "chain g [s] = True"
| "chain g (s # s' # S) = ((s', s) \<in> arcsOf (\<lambda>to. to) g \<and> chain g (s' # S))"

definition stackOk :: "NI list list \<Rightarrow> NI list \<Rightarrow> NI list \<Rightarrow> bool" where
  "stackOk g S fin =
     (chain g S \<and> distinct S \<and> set S \<inter> set fin = {} \<and>
      (\<forall>s \<in> set S. 0 \<le> s \<and> nat s < length g))"

text \<open>The two graphs of \<open>ExampleAdjacencyList_Topological\<close>.\<close>

definition topoExample :: "NI list list" where
  "topoExample = [[], [2], [], [1, 2], [3, 2]]"

definition topoExampleCyclic :: "NI list list" where
  "topoExampleCyclic = [[], [2], [3], [1, 2], [3, 2]]"

section \<open>Parallel arcs: HasParallelSort\<close>

lemma scanParallel_Some: "scanParallel t0 ts = Some d \<Longrightarrow> 2 \<le> count_list (t0 # ts) d"
proof (induction ts arbitrary: t0)
  case Nil
  then show ?case by simp
next
  case (Cons a ts)
  show ?case
  proof (cases "a = t0")
    case True
    with Cons.prems show ?thesis by simp
  next
    case False
    with Cons.prems have "scanParallel a ts = Some d" by simp
    from Cons.IH[OF this] show ?thesis by simp
  qed
qed

lemma scanParallel_None: "sorted (t0 # ts) \<Longrightarrow> (scanParallel t0 ts = None) = distinct (t0 # ts)"
  by (induction ts arbitrary: t0) (auto split: if_splits)

lemma count_list_sort: "count_list (sort xs) d = count_list xs d"
  by (metis count_mset mset_sort)

lemma NI_of_index_small: "n < 2 ^ 31 \<Longrightarrow> NI_of_index n = int n"
  by (simp add: NI_of_index_def)

lemma scan_sorted_slot:
  assumes "to \<noteq> []"
  shows "(scanParallel (hd (sort to)) (tl (sort to)) = None) = distinct to"
    and "scanParallel (hd (sort to)) (tl (sort to)) = Some d \<Longrightarrow> 2 \<le> count_list to d"
proof -
  from assms have ne: "sort to \<noteq> []" by (metis length_sort length_0_conv)
  then have eq: "hd (sort to) # tl (sort to) = sort to" by simp
  have "sorted (hd (sort to) # tl (sort to))" unfolding eq by simp
  from scanParallel_None[OF this]
  show "(scanParallel (hd (sort to)) (tl (sort to)) = None) = distinct to"
    unfolding eq by simp
  show "scanParallel (hd (sort to)) (tl (sort to)) = Some d \<Longrightarrow> 2 \<le> count_list to d"
    using scanParallel_Some[of "hd (sort to)" "tl (sort to)" d] unfolding eq count_list_sort .
qed

lemma hasParallelFrom_spec:
  "n + length g \<le> 2 ^ 31 \<Longrightarrow>
   ((hasParallelFrom n g = (-1, -1)) = (\<forall>slot \<in> set g. distinct slot)) \<and>
   (hasParallelFrom n g \<noteq> (-1, -1) \<longrightarrow>
      int n \<le> fst (hasParallelFrom n g) \<and> nat (fst (hasParallelFrom n g)) < n + length g \<and>
      2 \<le> count_list (g ! (nat (fst (hasParallelFrom n g)) - n)) (snd (hasParallelFrom n g)))"
proof (induction g arbitrary: n)
  case Nil
  then show ?case by simp
next
  case (Cons to g)
  from Cons.prems have n: "n < 2 ^ 31" and nxt: "Suc n + length g \<le> 2 ^ 31" by simp_all
  note IH = Cons.IH[OF nxt]
  show ?case
  proof (cases "to = []")
    case True
    with IH show ?thesis by (auto simp: Suc_diff_le)
  next
    case False
    show ?thesis
    proof (cases "scanParallel (hd (sort to)) (tl (sort to))")
      case None
      with scan_sorted_slot(1)[OF False] have "distinct to" by simp
      with None False IH show ?thesis by (auto simp: Suc_diff_le)
    next
      case (Some d)
      with scan_sorted_slot(1)[OF False] have nd: "\<not> distinct to" by simp
      from scan_sorted_slot(2)[OF False Some] have "2 \<le> count_list to d" .
      with Some False nd n show ?thesis by (simp add: NI_of_index_small)
    qed
  qed
qed

text \<open>
  Claim C10. For an adjacency list \<open>g\<close> whose slice indices fit the node-id type
  (at most \<open>2^31\<close> slots), \<open>HasParallelSort\<close> returns \<open>(-1, -1)\<close> exactly when no slot
  of \<open>g\<close> lists a target twice (two loops on a node being two equal entries of its own
  slot); otherwise it returns \<open>(fr, to)\<close> where \<open>fr\<close> is a node of \<open>g\<close> and \<open>to\<close>
  occurs at least twice in the slot of \<open>fr\<close>.
\<close>

theorem HasParallelSort_parallel_iff:
  assumes "length g \<le> 2 ^ 31"
  shows "((HasParallelSort g = (-1, -1)) = (\<forall>slot \<in> set g. distinct slot)) \<and>
         (HasParallelSort g \<noteq> (-1, -1) \<longrightarrow>
            (case HasParallelSort g of (fr, to) \<Rightarrow>
               0 \<le> fr \<and> nat fr < length g \<and> 2 \<le> count_list (g ! nat fr) to))"
  using hasParallelFrom_spec[of 0 g] assms
  by (simp add: HasParallelSort_def split_beta)

theorem HasParallelSort_parallel_iff_witness:
  "length [[], [0, 0 :: int]] \<le> 2 ^ 31 \<and>
   HasParallelSort [[], [0, 0]] = (1, 0) \<and>
   \<not> (\<forall>slot \<in> set [[], [0, 0 :: int]]. distinct slot) \<and>
   2 \<le> count_list ([[], [0, 0 :: int]] ! nat 1) 0"
  using HasParallelSort_parallel_iff[of "[[], [0, 0]]"]
  by (simp add: HasParallelSort_def NI_of_index_def)

text \<open>The two runs of \<open>ExampleAdjacencyList_HasParallelSort\<close>.\<close>

lemma HasParallelSort_example_none: "HasParallelSort [[], [0]] = (-1, -1)"
  by (simp add: HasParallelSort_def)

lemma HasParallelSort_example_parallel: "HasParallelSort [[], [0, 0]] = (1, 0)"
  by (simp add: HasParallelSort_def NI_of_index_def)

section \<open>The engine: shape of the closures\<close>

lemma forEach_cong_set:
  "(\<And>x s. x \<in> set xs \<Longrightarrow> body x s = body' x s) \<Longrightarrow> forEach body xs st = forEach body' xs st"
  by (induction xs arbitrary: st) (auto split: res.splits)

lemma forWhile_cong_set:
  "(\<And>x s. x \<in> set xs \<Longrightarrow> body x s = body' x s) \<Longrightarrow> forWhile body xs st = forWhile body' xs st"
  by (induction xs arbitrary: st) (auto split: res.splits)

lemma mkTraverse_unfold:
  "mkTraverse tgt cf t n st =
     (let st0 = nodeStep cf n st in
      case index (gr st0) n of
        None \<Rightarrow> Panic st0
      | Some to \<Rightarrow> (case arcOrder cf (length to) st0 of (p, st1) \<Rightarrow>
          forEach (\<lambda>x s. atIndex tgt to x t (arcStep cf n x s)) p st1))"
proof -
  have range: "forEach (\<lambda>x s. t (tgt (to ! x)) (f x s)) [0..<length to] s0 =
               forEach (\<lambda>x s. atIndex tgt to x t (f x s)) [0..<length to] s0" for to f s0
    by (rule forEach_cong_set) (simp add: atIndex_def)
  show ?thesis
    by (simp add: mkTraverse_def composeTraverseVisitor_def recurseTraverse_def toTraverse_def
        randTraverse_def nodeStep_def arcOrder_def arcStep_def range Let_def
        split: option.splits prod.splits)
qed

lemma mkSearch_unfold:
  "mkSearch tgt cf f n st =
     (case okNodeStep cf n st of (ok, st0) \<Rightarrow>
        if \<not> ok then Ret False st0
        else (case index (gr st0) n of
          None \<Rightarrow> Panic st0
        | Some to \<Rightarrow> (case arcOrder cf (length to) st0 of (p, st1) \<Rightarrow>
            forWhile (\<lambda>x s. case okArcStep cf n x s of (ok, s1) \<Rightarrow>
                       if \<not> ok then Ret False s1 else atIndex tgt to x f s1) p st1)))"
proof -
  have range: "forWhile (\<lambda>x s. case h x s of (ok, s1) \<Rightarrow> if \<not> ok then Ret False s1 else f (tgt (to ! x)) s1) [0..<length to] s0 =
               forWhile (\<lambda>x s. case h x s of (ok, s1) \<Rightarrow> if \<not> ok then Ret False s1 else atIndex tgt to x f s1) [0..<length to] s0" for to h s0
    by (rule forWhile_cong_set) (simp add: atIndex_def split: prod.splits)
  have range2: "forWhile (\<lambda>x s. f (tgt (to ! x)) (h x s)) [0..<length to] s0 =
               forWhile (\<lambda>x s. atIndex tgt to x f (h x s)) [0..<length to] s0" for to h s0
    by (rule forWhile_cong_set) (simp add: atIndex_def split: prod.splits)
  show ?thesis
    by (simp add: mkSearch_def composeSearchVisitor_def recurseSearch_def toSearch_def
        randSearch_def okNodeStep_def nodeStep_def arcOrder_def arcStep_def okArcStep_def range range2
        split: option.splits prod.splits)
qed


subsection \<open>Extension of states\<close>

lemma visitsOf_append: "visitsOf (xs @ ys) = visitsOf xs @ visitsOf ys"
  by (induction xs rule: visitsOf.induct) simp_all

lemma marked_SetBit: "marked (Bits_SetBit b k) = insert (int k) (marked b)"
  by (auto simp: marked_def Bits_SetBit_def Bits_Bit_def bit_set_bit_iff nat_eq_iff)

lemma ext_refl: "ext st st"
  by (simp add: ext_def)

lemma ext_trans:
  assumes "ext a b" and "ext b c"
  shows "ext a c"
proof -
  from assms(1) obtain e1 where 1: "gr b = gr a" "marked (vis a) \<subseteq> marked (vis b)"
    "trace b = trace a @ e1" "distinct (visitsOf e1)"
    "set (visitsOf e1) = marked (vis b) - marked (vis a)"
    unfolding ext_def by blast
  from assms(2) obtain e2 where 2: "gr c = gr b" "marked (vis b) \<subseteq> marked (vis c)"
    "trace c = trace b @ e2" "distinct (visitsOf e2)"
    "set (visitsOf e2) = marked (vis c) - marked (vis b)"
    unfolding ext_def by blast
  have "trace c = trace a @ (e1 @ e2)" using 1 2 by simp
  moreover have "distinct (visitsOf (e1 @ e2))"
    using 1 2 by (auto simp: visitsOf_append)
  moreover have "set (visitsOf (e1 @ e2)) = marked (vis c) - marked (vis a)"
    using 1 2 by (auto simp: visitsOf_append)
  ultimately show ?thesis unfolding ext_def using 1 2 by (metis order_trans)
qed

lemma ext_same:
  "gr st' = gr st \<Longrightarrow> vis st' = vis st \<Longrightarrow> trace st' = trace st @ evs \<Longrightarrow> visitsOf evs = []
     \<Longrightarrow> ext st st'"
  unfolding ext_def by auto

lemma ext_nodeStep: "ext st (nodeStep cf n st)"
  by (rule ext_same[where evs = "case nodeVisitor cf of Some v \<Rightarrow> [NodeCall n] | None \<Rightarrow> []"])
     (simp_all add: nodeStep_def callNode_def split: option.splits)

lemma ext_arcStep: "ext st (arcStep cf n x st)"
  by (rule ext_same[where evs = "case arcVisitor cf of Some v \<Rightarrow> [ArcCall n x] | None \<Rightarrow> []"])
     (simp_all add: arcStep_def callArc_def split: option.splits)

lemma ext_okNodeStep: "ext st (snd (okNodeStep cf n st))"
proof (cases "okNodeVisitor cf")
  case None
  then show ?thesis using ext_nodeStep[of st cf n] by (simp add: okNodeStep_def)
next
  case (Some v)
  then show ?thesis
    by (intro ext_same[where evs = "[OkNodeCall n (fst (v n (usr st)))]"])
       (simp_all add: okNodeStep_def callOkNode_def)
qed

lemma ext_okArcStep: "ext st (snd (okArcStep cf n x st))"
proof (cases "okArcVisitor cf")
  case None
  then show ?thesis using ext_arcStep[of st cf n x] by (simp add: okArcStep_def)
next
  case (Some v)
  then show ?thesis
    by (intro ext_same[where evs = "[OkArcCall n x (fst (v n x (usr st)))]"])
       (simp_all add: okArcStep_def callOkArc_def)
qed

lemma ext_arcOrder: "ext st (snd (arcOrder cf k st))"
  by (rule ext_same[where evs = "[]"])
     (simp_all add: arcOrder_def callPerm_def split: option.splits)

lemma ext_visitedFunc: "post (ext st) (visitedFunc n st)"
proof -
  have "ext st (st\<lparr>vis := Bits_SetBit (vis st) (nat n), trace := trace st @ [Visit n]\<rparr>)"
    if "0 \<le> n" "\<not> Bits_Bit (vis st) (nat n)"
  proof -
    from that have "n \<notin> marked (vis st)" by (simp add: marked_def)
    moreover from that have "marked (Bits_SetBit (vis st) (nat n)) = insert n (marked (vis st))"
      by (simp add: marked_SetBit)
    ultimately show ?thesis unfolding ext_def by auto
  qed
  then show ?thesis
    by (auto simp: visitedFunc_def post_def ext_refl)
qed

lemma post_mono: "post P r \<Longrightarrow> (\<And>s. P s \<Longrightarrow> Q s) \<Longrightarrow> post Q r"
  by (auto simp: post_def split: res.splits)

lemma forEach_post:
  assumes refl: "\<And>s. R s s"
    and trans: "\<And>a b c. R a b \<Longrightarrow> R b c \<Longrightarrow> R a c"
    and body: "\<And>x s. x \<in> set xs \<Longrightarrow> post (R s) (body x s)"
  shows "post (R st) (forEach body xs st)"
  using body
proof (induction xs arbitrary: st)
  case Nil
  show ?case by (simp add: post_def refl)
next
  case (Cons x xs)
  have b: "post (R st) (body x st)" using Cons.prems by simp
  show ?case
  proof (cases "body x st")
    case (Ret u st')
    with b have "R st st'" by (simp add: post_def)
    moreover have "post (R st') (forEach body xs st')" using Cons by simp
    ultimately show ?thesis using Ret
      by (auto simp: post_def split: res.splits intro: trans)
  qed (use b in \<open>simp_all add: post_def\<close>)
qed

lemma forWhile_post:
  assumes refl: "\<And>s. R s s"
    and trans: "\<And>a b c. R a b \<Longrightarrow> R b c \<Longrightarrow> R a c"
    and body: "\<And>x s. x \<in> set xs \<Longrightarrow> post (R s) (body x s)"
  shows "post (R st) (forWhile body xs st)"
  using body
proof (induction xs arbitrary: st)
  case Nil
  show ?case by (simp add: post_def refl)
next
  case (Cons x xs)
  have b: "post (R st) (body x st)" using Cons.prems by simp
  show ?case
  proof (cases "body x st")
    case (Ret ok st')
    with b have "R st st'" by (simp add: post_def)
    moreover have "post (R st') (forWhile body xs st')" using Cons by simp
    ultimately show ?thesis using Ret
      by (auto simp: post_def split: res.splits intro: trans)
  qed (use b in \<open>simp_all add: post_def\<close>)
qed

lemma atIndex_post:
  "(\<And>n. post Q (f n st)) \<Longrightarrow> Q st \<Longrightarrow> post Q (atIndex tgt to x f st)"
  by (simp add: atIndex_def post_def)

lemma post_trans:
  assumes "\<And>a b c. R a b \<Longrightarrow> R b c \<Longrightarrow> R a c" and "R a b" and "post (R b) r"
  shows "post (R a) r"
  using assms(2,3) by (auto simp: post_def split: res.splits intro: assms(1))

text \<open>
  A relation between states that every step of the engine respects is respected by
  the whole traversal and the whole search, however they end.
\<close>

lemma stepRel_refl: "stepRel cf R \<Longrightarrow> R s s"
  by (simp add: stepRel_def)

lemma stepRel_trans: "stepRel cf R \<Longrightarrow> R a b \<Longrightarrow> R b c \<Longrightarrow> R a c"
  unfolding stepRel_def by blast

lemma stepRel_post_trans:
  assumes "stepRel cf R" and "R a b" and "post (R b) r"
  shows "post (R a) r"
  using stepRel_trans[OF assms(1)] assms(2,3) by (rule post_trans)

lemma mkTraverse_rel:
  assumes R: "stepRel cf R"
    and t: "\<And>n s. post (R s) (t n s)"
  shows "post (R st) (mkTraverse tgt cf t n st)"
proof -
  let ?st0 = "nodeStep cf n st"
  have e0: "R st ?st0" using R by (simp add: stepRel_def)
  show ?thesis
  proof (cases "index (gr ?st0) n")
    case None
    then show ?thesis using e0 by (simp add: mkTraverse_unfold post_def)
  next
    case (Some to)
    obtain p st1 where ao: "arcOrder cf (length to) ?st0 = (p, st1)" by force
    have "R ?st0 (snd (arcOrder cf (length to) ?st0))" using R by (simp add: stepRel_def)
    then have e1: "R ?st0 st1" using ao by simp
    have "post (R st1) (forEach (\<lambda>x s. atIndex tgt to x t (arcStep cf n x s)) p st1)"
    proof (rule forEach_post[where R = R, OF stepRel_refl[OF R] stepRel_trans[OF R]])
      fix x s
      have "R s (arcStep cf n x s)" using R by (simp add: stepRel_def)
      then show "post (R s) (atIndex tgt to x t (arcStep cf n x s))"
        by (rule stepRel_post_trans[OF R]) (rule atIndex_post[OF t stepRel_refl[OF R]])
    qed
    then show ?thesis using Some ao e0 e1
      by (simp add: mkTraverse_unfold) (blast intro: stepRel_post_trans[OF R])
  qed
qed

lemma traverse_rel:
  assumes R: "stepRel cf R"
  shows "post (R st) (traverse k (mkTraverse tgt cf) n st)"
proof (induction k arbitrary: n st)
  case 0
  show ?case by (simp add: post_def)
next
  case (Suc k)
  have v: "post (R st) (visitedFunc n st)" using R by (simp add: stepRel_def)
  show ?case
  proof (cases "visitedFunc n st")
    case (Ret seen st')
    with v have e: "R st st'" by (simp add: post_def)
    show ?thesis
    proof (cases seen)
      case True
      with Ret e show ?thesis by (simp add: post_def)
    next
      case False
      have "post (R st') (mkTraverse tgt cf (traverse k (mkTraverse tgt cf)) n st')"
        by (rule mkTraverse_rel[OF R]) (rule Suc.IH)
      with Ret False e show ?thesis by (simp add: stepRel_post_trans[OF R])
    qed
  qed (use v in \<open>simp_all add: post_def\<close>)
qed

lemma mkSearch_rel:
  fixes st :: "('g, 'u, 'r) store"
  assumes R: "stepRel cf R"
    and t: "\<And>n s. post (R s) (f n s)"
  shows "post (R st) (mkSearch tgt cf f n st)"
proof -
  obtain ok st0 where on: "okNodeStep cf n st = (ok, st0)" by force
  have "R st (snd (okNodeStep cf n st))" using R by (simp add: stepRel_def)
  then have e0: "R st st0" using on by simp
  show ?thesis
  proof (cases ok)
    case False
    then show ?thesis using on e0 by (simp add: mkSearch_unfold post_def)
  next
    case True
    show ?thesis
    proof (cases "index (gr st0) n")
      case None
      then show ?thesis using on True e0 by (simp add: mkSearch_unfold post_def)
    next
      case (Some to)
      obtain p st1 where ao: "arcOrder cf (length to) st0 = (p, st1)" by force
      have "R st0 (snd (arcOrder cf (length to) st0))" using R by (simp add: stepRel_def)
      then have e1: "R st0 st1" using ao by simp
      have "post (R st1) (forWhile (\<lambda>x s. case okArcStep cf n x s of (ok, s1) \<Rightarrow>
                       if \<not> ok then Ret False s1 else atIndex tgt to x f s1) p st1)"
      proof (rule forWhile_post[where R = R, OF stepRel_refl[OF R] stepRel_trans[OF R]])
        fix x and s :: "('g, 'u, 'r) store"
        obtain ok1 s1 where oa: "okArcStep cf n x s = (ok1, s1)" by force
        have "R s (snd (okArcStep cf n x s))" using R by (simp add: stepRel_def)
        then have "R s s1" using oa by simp
        moreover have "post (R s1) (atIndex tgt to x f s1)"
          by (rule atIndex_post[OF t stepRel_refl[OF R]])
        ultimately show "post (R s) (case okArcStep cf n x s of (ok, s1) \<Rightarrow>
                       if \<not> ok then Ret False s1 else atIndex tgt to x f s1)"
          using oa by (auto simp: post_def intro: stepRel_post_trans[OF R, unfolded post_def])
      qed
      then show ?thesis using Some ao e0 e1 on True
        by (simp add: mkSearch_unfold) (blast intro: stepRel_post_trans[OF R])
    qed
  qed
qed

lemma search_rel:
  assumes R: "stepRel cf R"
  shows "post (R st) (search k (mkSearch tgt cf) n st)"
proof (induction k arbitrary: n st)
  case 0
  show ?case by (simp add: post_def)
next
  case (Suc k)
  have v: "post (R st) (visitedFunc n st)" using R by (simp add: stepRel_def)
  show ?case
  proof (cases "visitedFunc n st")
    case (Ret seen st')
    with v have e: "R st st'" by (simp add: post_def)
    show ?thesis
    proof (cases seen)
      case True
      with Ret e show ?thesis by (simp add: post_def)
    next
      case False
      have "post (R st') (mkSearch tgt cf (search k (mkSearch tgt cf)) n st')"
        by (rule mkSearch_rel[OF R]) (rule Suc.IH)
      with Ret False e show ?thesis by (simp add: stepRel_post_trans[OF R])
    qed
  qed (use v in \<open>simp_all add: post_def\<close>)
qed

lemma dfFunc_rel:
  assumes R: "stepRel cf R"
  shows "post (R st) (dfFunc tgt k cf n st)"
proof -
  have t: "mkTraverse tgt cf = (\<lambda>t. composeTraverseVisitor cf (recurseTraverse tgt cf t))"
    by (simp add: mkTraverse_def fun_eq_iff)
  have s: "mkSearch tgt cf = (\<lambda>s. composeSearchVisitor cf (recurseSearch tgt cf s))"
    by (simp add: mkSearch_def fun_eq_iff)
  have "post (R st) (dropResult (search k (mkSearch tgt cf) n st))"
    using search_rel[OF R, of st k tgt n] by (simp add: post_def dropResult_def split: res.splits)
  with traverse_rel[OF R, of st k tgt n] show ?thesis
    by (simp add: dfFunc_def flip: t s)
qed

subsection \<open>Extension is respected\<close>

lemma stepRel_ext: "stepRel cf (ext :: (('g, 'u, 'r) store \<Rightarrow> ('g, 'u, 'r) store \<Rightarrow> bool))"
proof -
  have "ext a b \<longrightarrow> ext b c \<longrightarrow> ext a c" for a b c :: "('g, 'u, 'r) store"
    using ext_trans by blast
  then show ?thesis
    by (simp add: stepRel_def ext_refl ext_nodeStep ext_arcStep ext_okNodeStep ext_okArcStep
        ext_arcOrder ext_visitedFunc)
qed

lemma post_ext_trans: "ext a b \<Longrightarrow> post (ext b) r \<Longrightarrow> post (ext a) r"
  by (rule stepRel_post_trans[OF stepRel_ext])

lemma mkTraverse_ext:
  assumes "\<And>n s. post (ext s) (t n s)"
  shows "post (ext st) (mkTraverse tgt cf t n st)"
  using stepRel_ext assms by (rule mkTraverse_rel)

lemma traverse_ext: "post (ext st) (traverse k (mkTraverse tgt cf) n st)"
  using stepRel_ext by (rule traverse_rel)

lemma mkSearch_ext:
  assumes "\<And>n s. post (ext s) (f n s)"
  shows "post (ext st) (mkSearch tgt cf f n st)"
  using stepRel_ext assms by (rule mkSearch_rel)

lemma search_ext: "post (ext st) (search k (mkSearch tgt cf) n st)"
  using stepRel_ext by (rule search_rel)

subsection \<open>The frame: what no step writes\<close>

lemma stepRel_frame: "stepRel cf (frame cf)"
  unfolding stepRel_def frame_def
  by (auto simp: nodeStep_def arcStep_def okNodeStep_def okArcStep_def arcOrder_def callNode_def
      callArc_def callOkNode_def callOkArc_def callPerm_def visitedFunc_def post_def noVisitor_def
      split: option.splits)

subsection \<open>Termination: enough depth gives a result\<close>

lemma finite_unmarked: "finite (unmarked st)"
  by (simp add: unmarked_def)

lemma Bits_Bit_marked: "Bits_Bit b i = (int i \<in> marked b)"
  by (simp add: marked_def)

lemma ext_unmarked: "ext st st' \<Longrightarrow> unmarked st' \<subseteq> unmarked st"
  by (auto simp: ext_def unmarked_def Bits_Bit_marked)

lemma ext_card_unmarked: "ext st st' \<Longrightarrow> card (unmarked st') \<le> card (unmarked st)"
  by (simp add: card_mono ext_unmarked finite_unmarked)

lemma ext_gr: "ext st st' \<Longrightarrow> gr st' = gr st"
  by (simp add: ext_def)

lemma visitedFunc_total:
  assumes "0 \<le> n"
  shows "\<exists>seen st'. visitedFunc n st = Ret seen st'"
  using assms by (auto simp: visitedFunc_def)

lemma visitedFunc_new_card:
  assumes "visitedFunc n st = Ret False st'" and "nat n < length (gr st)"
  shows "card (unmarked st') < card (unmarked st)"
proof -
  from assms(1) have n: "0 \<le> n" "\<not> Bits_Bit (vis st) (nat n)"
    and st': "st' = st\<lparr>vis := Bits_SetBit (vis st) (nat n), trace := trace st @ [Visit n]\<rparr>"
    by (auto simp: visitedFunc_def split: if_splits)
  have "nat n \<in> unmarked st" using n assms(2) by (simp add: unmarked_def)
  moreover have "nat n \<notin> unmarked st'"
    using n by (simp add: unmarked_def st' Bits_Bit_marked marked_SetBit)
  moreover have "unmarked st' \<subseteq> unmarked st"
    using ext_visitedFunc[of st n] assms(1) by (simp add: post_def ext_unmarked)
  ultimately have "unmarked st' \<subset> unmarked st" by blast
  then show ?thesis by (simp add: psubset_card_mono finite_unmarked)
qed

lemma forEach_total:
  assumes "I st"
    and "\<And>x s. x \<in> set xs \<Longrightarrow> I s \<Longrightarrow> \<exists>s'. body x s = Ret () s' \<and> I s'"
  shows "\<exists>s'. forEach body xs st = Ret () s' \<and> I s'"
  using assms
proof (induction xs arbitrary: st)
  case Nil
  then show ?case by simp
next
  case (Cons x xs)
  from Cons.prems obtain s1 where s1: "body x st = Ret () s1" "I s1" by (meson list.set_intros(1))
  from Cons.IH[OF s1(2)] Cons.prems(2) obtain s' where "forEach body xs s1 = Ret () s'" "I s'"
    by (meson list.set_intros(2))
  with s1 show ?case by simp
qed

lemma forWhile_total:
  assumes "I st"
    and "\<And>x s. x \<in> set xs \<Longrightarrow> I s \<Longrightarrow> \<exists>ok s'. body x s = Ret ok s' \<and> I s'"
  shows "\<exists>ok s'. forWhile body xs st = Ret ok s' \<and> I s'"
  using assms
proof (induction xs arbitrary: st)
  case Nil
  then show ?case by auto
next
  case (Cons x xs)
  from Cons.prems obtain ok s1 where s1: "body x st = Ret ok s1" "I s1"
    by (meson list.set_intros(1))
  show ?case
  proof (cases ok)
    case False
    with s1 show ?thesis by auto
  next
    case True
    from Cons.IH[OF s1(2)] Cons.prems(2) obtain ok' s' where "forWhile body xs s1 = Ret ok' s'" "I s'"
      by (meson list.set_intros(2))
    with s1 True show ?thesis by auto
  qed
qed

lemma index_Some: "0 \<le> n \<Longrightarrow> nat n < length g \<Longrightarrow> index g n = Some (g ! nat n)"
  by (simp add: index_def)

lemma arcOrder_set:
  assumes "randOk cf"
  shows "set (fst (arcOrder cf k st)) = {0..<k}"
proof (cases "rand cf")
  case None
  then show ?thesis by (simp add: arcOrder_def)
next
  case (Some r)
  with assms have "mset (fst (r (rnd st) k)) = mset [0..<k]" by (simp add: randOk_def permOk_def)
  then have "set (fst (r (rnd st) k)) = set [0..<k]" by (rule mset_eq_setD)
  with Some show ?thesis by (simp add: arcOrder_def callPerm_def)
qed

lemma boundsOk_target:
  "boundsOk tgt g \<Longrightarrow> i < length g \<Longrightarrow> x < length (g ! i) \<Longrightarrow>
     0 \<le> tgt (g ! i ! x) \<and> nat (tgt (g ! i ! x)) < length g"
  unfolding boundsOk_def by (meson nth_mem)

lemma mkTraverse_total:
  assumes wf: "boundsOk tgt g" "randOk cf"
    and st: "gr st = g" "card (unmarked st) < k"
    and n: "0 \<le> n" "nat n < length g"
    and tx: "\<And>m s. post (ext s) (t m s)"
    and ttot: "\<And>m s. gr s = g \<Longrightarrow> card (unmarked s) < k \<Longrightarrow> 0 \<le> m \<Longrightarrow> nat m < length g
                 \<Longrightarrow> \<exists>s'. t m s = Ret () s'"
  shows "\<exists>s'. mkTraverse tgt cf t n st = Ret () s'"
proof -
  let ?st0 = "nodeStep cf n st"
  let ?to = "g ! nat n"
  have e0: "ext st ?st0" by (rule ext_nodeStep)
  then have g0: "gr ?st0 = g" using st by (simp add: ext_gr)
  then have idx: "index (gr ?st0) n = Some ?to" using n by (simp add: index_Some)
  obtain p st1 where ao: "arcOrder cf (length ?to) ?st0 = (p, st1)" by force
  have e1: "ext st st1" using ext_arcOrder[of ?st0 cf "length ?to"] ao e0 by (auto intro: ext_trans)
  have p: "set p = {0..<length ?to}" using arcOrder_set[OF wf(2), of "length ?to" ?st0] ao by simp
  have "\<exists>s'. forEach (\<lambda>x s. atIndex tgt ?to x t (arcStep cf n x s)) p st1 = Ret () s' \<and> ext st s'"
  proof (rule forEach_total[where I = "ext st", OF e1])
    fix x s assume x: "x \<in> set p" and s: "ext st s"
    let ?s = "arcStep cf n x s"
    have es: "ext st ?s" using s ext_arcStep by (rule ext_trans)
    from x p have xl: "x < length ?to" by simp
    from boundsOk_target[OF wf(1) n(2) xl]
    have tg: "0 \<le> tgt (?to ! x)" "nat (tgt (?to ! x)) < length g" by simp_all
    have "card (unmarked ?s) < k" using ext_card_unmarked[OF es] st(2) by simp
    with ttot[of ?s "tgt (?to ! x)"] es st(1) tg obtain s' where s': "t (tgt (?to ! x)) ?s = Ret () s'"
      by (auto simp: ext_gr)
    with tx[of ?s "tgt (?to ! x)"] have "ext ?s s'" by (simp add: post_def)
    with es have "ext st s'" by (rule ext_trans)
    with s' xl show "\<exists>s'. atIndex tgt ?to x t ?s = Ret () s' \<and> ext st s'"
      by (simp add: atIndex_def)
  qed
  then show ?thesis using idx ao by (auto simp: mkTraverse_unfold)
qed

lemma traverse_total:
  assumes wf: "boundsOk tgt g" "randOk cf"
  shows "gr st = g \<Longrightarrow> card (unmarked st) < k \<Longrightarrow> 0 \<le> n \<Longrightarrow> nat n < length g
           \<Longrightarrow> \<exists>s'. traverse k (mkTraverse tgt cf) n st = Ret () s'"
proof (induction k arbitrary: n st)
  case 0
  then show ?case by simp
next
  case (Suc k)
  from visitedFunc_total[OF Suc.prems(3)] obtain seen st' where v: "visitedFunc n st = Ret seen st'"
    by blast
  show ?case
  proof (cases seen)
    case True
    with v show ?thesis by simp
  next
    case False
    have e: "ext st st'" using ext_visitedFunc[of st n] v by (simp add: post_def)
    have c: "card (unmarked st') < k"
      using visitedFunc_new_card[of n st st'] v False Suc.prems by simp
    have "\<exists>s'. mkTraverse tgt cf (traverse k (mkTraverse tgt cf)) n st' = Ret () s'"
    proof (rule mkTraverse_total[OF wf _ c Suc.prems(3,4)])
      show "gr st' = g" using e Suc.prems(1) by (simp add: ext_gr)
      show "post (ext s) (traverse k (mkTraverse tgt cf) m s)" for m s by (rule traverse_ext)
      show "\<exists>s'. traverse k (mkTraverse tgt cf) m s = Ret () s'"
        if "gr s = g" "card (unmarked s) < k" "0 \<le> m" "nat m < length g" for m s
        using that by (rule Suc.IH)
    qed
    with v False show ?thesis by simp
  qed
qed

lemma mkSearch_total:
  assumes wf: "boundsOk tgt g" "randOk cf"
    and st: "gr st = g" "card (unmarked st) < k"
    and n: "0 \<le> n" "nat n < length g"
    and tx: "\<And>m s. post (ext s) (f m s)"
    and ttot: "\<And>m s. gr s = g \<Longrightarrow> card (unmarked s) < k \<Longrightarrow> 0 \<le> m \<Longrightarrow> nat m < length g
                 \<Longrightarrow> \<exists>ok s'. f m s = Ret ok s'"
  shows "\<exists>ok s'. mkSearch tgt cf f n st = Ret ok s'"
proof -
  obtain ok0 st0 where on: "okNodeStep cf n st = (ok0, st0)" by force
  let ?to = "g ! nat n"
  have e0: "ext st st0" using ext_okNodeStep[of st cf n] on by simp
  then have g0: "gr st0 = g" using st by (simp add: ext_gr)
  then have idx: "index (gr st0) n = Some ?to" using n by (simp add: index_Some)
  obtain p st1 where ao: "arcOrder cf (length ?to) st0 = (p, st1)" by force
  have e1: "ext st st1" using ext_arcOrder[of st0 cf "length ?to"] ao e0 by (auto intro: ext_trans)
  have p: "set p = {0..<length ?to}" using arcOrder_set[OF wf(2), of "length ?to" st0] ao by simp
  have "\<exists>ok s'. forWhile (\<lambda>x s. case okArcStep cf n x s of (ok, s1) \<Rightarrow>
                       if \<not> ok then Ret False s1 else atIndex tgt ?to x f s1) p st1 = Ret ok s'
                 \<and> ext st s'"
  proof (rule forWhile_total[where I = "ext st", OF e1])
    fix x and s :: "('a, 'b, 'c) store" assume x: "x \<in> set p" and s: "ext st s"
    obtain ok1 s1 where oa: "okArcStep cf n x s = (ok1, s1)" by force
    have es: "ext st s1" using s ext_okArcStep[of s cf n x] oa by (auto intro: ext_trans)
    from x p have xl: "x < length ?to" by simp
    from boundsOk_target[OF wf(1) n(2) xl]
    have tg: "0 \<le> tgt (?to ! x)" "nat (tgt (?to ! x)) < length g" by simp_all
    have "card (unmarked s1) < k" using ext_card_unmarked[OF es] st(2) by simp
    with ttot[of s1 "tgt (?to ! x)"] es st(1) tg obtain ok' s' where s': "f (tgt (?to ! x)) s1 = Ret ok' s'"
      by (auto simp: ext_gr)
    with tx[of s1 "tgt (?to ! x)"] have "ext s1 s'" by (simp add: post_def)
    with es have "ext st s'" by (rule ext_trans)
    with s' xl oa es show "\<exists>ok s'. (case okArcStep cf n x s of (ok, s1) \<Rightarrow>
                       if \<not> ok then Ret False s1 else atIndex tgt ?to x f s1) = Ret ok s' \<and> ext st s'"
      by (auto simp: atIndex_def)
  qed
  then show ?thesis using idx ao on by (auto simp: mkSearch_unfold)
qed

lemma search_total:
  assumes wf: "boundsOk tgt g" "randOk cf"
  shows "gr st = g \<Longrightarrow> card (unmarked st) < k \<Longrightarrow> 0 \<le> n \<Longrightarrow> nat n < length g
           \<Longrightarrow> \<exists>ok s'. search k (mkSearch tgt cf) n st = Ret ok s'"
proof (induction k arbitrary: n st)
  case 0
  then show ?case by simp
next
  case (Suc k)
  from visitedFunc_total[OF Suc.prems(3)] obtain seen st' where v: "visitedFunc n st = Ret seen st'"
    by blast
  show ?case
  proof (cases seen)
    case True
    with v show ?thesis by auto
  next
    case False
    have e: "ext st st'" using ext_visitedFunc[of st n] v by (simp add: post_def)
    have c: "card (unmarked st') < k"
      using visitedFunc_new_card[of n st st'] v False Suc.prems by simp
    have "\<exists>ok s'. mkSearch tgt cf (search k (mkSearch tgt cf)) n st' = Ret ok s'"
    proof (rule mkSearch_total[OF wf _ c Suc.prems(3,4)])
      show "gr st' = g" using e Suc.prems(1) by (simp add: ext_gr)
      show "post (ext s) (search k (mkSearch tgt cf) m s)" for m s by (rule search_ext)
      show "\<exists>ok s'. search k (mkSearch tgt cf) m s = Ret ok s'"
        if "gr s = g" "card (unmarked s) < k" "0 \<le> m" "nat m < length g" for m s
        using that by (rule Suc.IH)
    qed
    with v False show ?thesis by simp
  qed
qed

lemma card_unmarked_le: "card (unmarked st) \<le> length (gr st)"
proof -
  have "unmarked st \<subseteq> {0..<length (gr st)}" by (auto simp: unmarked_def)
  then have "card (unmarked st) \<le> card {0..<length (gr st)}" by (rule card_mono[rotated]) simp
  then show ?thesis by simp
qed

subsection \<open>What a traversal marks\<close>

lemma reachAvoiding_self: "n \<notin> V \<Longrightarrow> n \<in> reachAvoiding tgt g V n"
  by (simp add: reachAvoiding_def)

lemma reachAvoiding_antimono:
  assumes "V \<subseteq> V'"
  shows "reachAvoiding tgt g V' t \<subseteq> reachAvoiding tgt g V t"
proof (cases "t \<in> V'")
  case True
  then show ?thesis by (simp add: reachAvoiding_def)
next
  case False
  with assms have "t \<notin> V" by blast
  moreover have "{(u, v). (u, v) \<in> arcsOf tgt g \<and> u \<notin> V' \<and> v \<notin> V'}\<^sup>*
      \<subseteq> {(u, v). (u, v) \<in> arcsOf tgt g \<and> u \<notin> V \<and> v \<notin> V}\<^sup>*"
    using assms by (intro rtrancl_mono) blast
  ultimately show ?thesis using False by (auto simp: reachAvoiding_def)
qed

lemma reachAvoiding_step:
  assumes "n \<notin> V" and "(n, t) \<in> arcsOf tgt g"
  shows "reachAvoiding tgt g V t \<subseteq> reachAvoiding tgt g V n"
proof (cases "t \<in> V")
  case True
  then show ?thesis by (simp add: reachAvoiding_def)
next
  case False
  with assms have "(n, t) \<in> {(u, v). (u, v) \<in> arcsOf tgt g \<and> u \<notin> V \<and> v \<notin> V}" by simp
  then show ?thesis using assms(1) False
    by (auto simp: reachAvoiding_def intro: converse_rtrancl_into_rtrancl)
qed

lemma reachAvoiding_empty: "reachAvoiding tgt g {} n = reachable tgt g n"
  by (simp add: reachAvoiding_def reachable_def)

lemma closedIn_mono: "closedIn tgt g M m \<Longrightarrow> M \<subseteq> M' \<Longrightarrow> closedIn tgt g M' m"
  by (auto simp: closedIn_def)

lemma ext_marked: "ext st st' \<Longrightarrow> marked (vis st) \<subseteq> marked (vis st')"
  by (simp add: ext_def)

lemma forEach_Ret_inv:
  assumes "forEach body xs st = Ret () st'"
    and "I S st"
    and "\<And>x s s' S. x \<in> set xs \<Longrightarrow> I S s \<Longrightarrow> body x s = Ret () s' \<Longrightarrow> I (insert x S) s'"
  shows "I (S \<union> set xs) st'"
  using assms
proof (induction xs arbitrary: st S)
  case Nil
  then show ?case by simp
next
  case (Cons x xs)
  from Cons.prems(1) obtain s1 where s1: "body x st = Ret () s1" "forEach body xs s1 = Ret () st'"
    by (auto split: res.splits)
  have "I (insert x S) s1" using Cons.prems(2,3) s1(1) by simp
  from Cons.IH[OF s1(2) this] Cons.prems(3) show ?case by simp
qed

lemma mkTraverse_marks:
  assumes rok: "randOk cf"
    and run: "mkTraverse tgt cf t n st = Ret () st'"
    and tx: "\<And>m s. post (ext s) (t m s)"
    and tm: "\<And>m s s'. t m s = Ret () s' \<Longrightarrow> marks tgt m s s'"
  shows "closedIn tgt (gr st) (marked (vis st')) n \<and>
         (\<forall>m \<in> marked (vis st') - marked (vis st).
            (\<exists>h \<in> set (gr st ! nat n). m \<in> reachAvoiding tgt (gr st) (marked (vis st)) (tgt h)) \<and>
            closedIn tgt (gr st) (marked (vis st')) m)"
proof -
  let ?g = "gr st" and ?V = "marked (vis st)"
  let ?st0 = "nodeStep cf n st"
  have e0: "ext st ?st0" by (rule ext_nodeStep)
  have v0: "vis ?st0 = vis st" by (simp add: nodeStep_def callNode_def split: option.splits)
  have g0: "gr ?st0 = ?g" using e0 by (simp add: ext_def)
  from run obtain to where idx: "index ?g n = Some to"
    by (cases "index ?g n") (simp_all add: mkTraverse_unfold g0)
  then have n: "0 \<le> n" "nat n < length ?g" and to: "to = ?g ! nat n"
    by (auto simp: index_def split: if_splits)
  obtain p st1 where ao: "arcOrder cf (length to) ?st0 = (p, st1)" by force
  have e1: "ext ?st0 st1" using ext_arcOrder[of ?st0 cf "length to"] ao by simp
  have v1: "vis st1 = vis st"
    using ao v0 by (auto simp: arcOrder_def callPerm_def split: option.splits)
  have es1: "ext st st1" using e0 e1 by (rule ext_trans)
  have p: "set p = {0..<length to}" using arcOrder_set[OF rok, of "length to" ?st0] ao by simp
  from run idx ao
  have loop: "forEach (\<lambda>x s. atIndex tgt to x t (arcStep cf n x s)) p st1 = Ret () st'"
    by (simp add: mkTraverse_unfold g0)
  define I where "I S s \<longleftrightarrow> ext st s \<and> (\<forall>x \<in> S. x < length to \<and> tgt (to ! x) \<in> marked (vis s)) \<and>
      (\<forall>m \<in> marked (vis s) - ?V.
         (\<exists>h \<in> set to. m \<in> reachAvoiding tgt ?g ?V (tgt h)) \<and> closedIn tgt ?g (marked (vis s)) m)"
    for S s
  have "I ({} \<union> set p) st'"
  proof (rule forEach_Ret_inv[where I = I, OF loop])
    show "I {} st1" using es1 v1 by (simp add: I_def)
  next
    fix x s s' S
    assume x: "x \<in> set p" and inv: "I S s"
      and body: "atIndex tgt to x t (arcStep cf n x s) = Ret () s'"
    let ?s = "arcStep cf n x s"
    have vs: "vis ?s = vis s" by (simp add: arcStep_def callArc_def split: option.splits)
    from x p have xl: "x < length to" by simp
    with body have run': "t (tgt (to ! x)) ?s = Ret () s'" by (simp add: atIndex_def)
    from tm[OF this] have m: "marks tgt (tgt (to ! x)) ?s s'" .
    from tx[of ?s "tgt (to ! x)"] run' have e': "ext ?s s'" by (simp add: post_def)
    from inv have es: "ext st s" by (simp add: I_def)
    then have ess: "ext st ?s" using ext_arcStep by (rule ext_trans)
    then have gs: "gr ?s = ?g" by (simp add: ext_def)
    have es': "ext st s'" using ess e' by (rule ext_trans)
    have sub: "marked (vis s) \<subseteq> marked (vis s')" using ext_marked[OF e'] vs by simp
    have Vs: "?V \<subseteq> marked (vis s)" using ext_marked[OF es] .
    have "\<forall>y \<in> insert x S. y < length to \<and> tgt (to ! y) \<in> marked (vis s')"
      using inv sub m xl by (auto simp: I_def marks_def)
    moreover have "(\<exists>h \<in> set to. k \<in> reachAvoiding tgt ?g ?V (tgt h)) \<and>
        closedIn tgt ?g (marked (vis s')) k" if k: "k \<in> marked (vis s') - ?V" for k
    proof (cases "k \<in> marked (vis s)")
      case True
      with k inv have "(\<exists>h \<in> set to. k \<in> reachAvoiding tgt ?g ?V (tgt h))"
        "closedIn tgt ?g (marked (vis s)) k" by (auto simp: I_def)
      then show ?thesis using sub by (blast intro: closedIn_mono)
    next
      case False
      with k m have "k \<in> reachAvoiding tgt ?g (marked (vis s)) (tgt (to ! x))"
        "closedIn tgt ?g (marked (vis s')) k"
        by (auto simp: marks_def vs gs)
      moreover have "to ! x \<in> set to" using xl by simp
      ultimately show ?thesis using reachAvoiding_antimono[OF Vs] by blast
    qed
    ultimately show "I (insert x S) s'" using es' by (simp add: I_def)
  qed
  then have fin: "ext st st'" "\<forall>x < length to. tgt (to ! x) \<in> marked (vis st')"
    "\<forall>m \<in> marked (vis st') - ?V.
         (\<exists>h \<in> set to. m \<in> reachAvoiding tgt ?g ?V (tgt h)) \<and> closedIn tgt ?g (marked (vis st')) m"
    using p by (auto simp: I_def)
  have "closedIn tgt ?g (marked (vis st')) n"
    unfolding closedIn_def using n fin(2) to by (auto simp: in_set_conv_nth)
  with fin(3) to show ?thesis by simp
qed

lemma traverse_marks:
  assumes rok: "randOk cf"
  shows "traverse k (mkTraverse tgt cf) n st = Ret () st' \<Longrightarrow> marks tgt n st st'"
proof (induction k arbitrary: n st st')
  case 0
  then show ?case by simp
next
  case (Suc k)
  let ?g = "gr st" and ?V = "marked (vis st)"
  from Suc.prems obtain seen s1 where v: "visitedFunc n st = Ret seen s1"
    by (auto split: res.splits)
  show ?case
  proof (cases seen)
    case True
    with v Suc.prems have "st' = st" "n \<in> ?V"
      by (auto simp: visitedFunc_def marked_def split: if_splits)
    then show ?thesis by (simp add: marks_def)
  next
    case False
    with v have n: "0 \<le> n" "n \<notin> ?V"
      and s1: "s1 = st\<lparr>vis := Bits_SetBit (vis st) (nat n), trace := trace st @ [Visit n]\<rparr>"
      by (auto simp: visitedFunc_def marked_def split: if_splits)
    have V1: "marked (vis s1) = insert n ?V" using n by (simp add: s1 marked_SetBit)
    have g1: "gr s1 = ?g" by (simp add: s1)
    from Suc.prems v False
    have run: "mkTraverse tgt cf (traverse k (mkTraverse tgt cf)) n s1 = Ret () st'" by simp
    have e: "ext s1 st'"
      using mkTraverse_ext[of "traverse k (mkTraverse tgt cf)" s1 tgt cf n, OF traverse_ext] run
      by (simp add: post_def)
    have nin: "n \<in> marked (vis st')" using ext_marked[OF e] V1 by blast
    from mkTraverse_marks[OF rok run traverse_ext Suc.IH]
    have cn: "closedIn tgt ?g (marked (vis st')) n"
      and new: "\<forall>m \<in> marked (vis st') - insert n ?V.
            (\<exists>h \<in> set (?g ! nat n). m \<in> reachAvoiding tgt ?g (insert n ?V) (tgt h)) \<and>
            closedIn tgt ?g (marked (vis st')) m"
      by (simp_all add: V1 g1)
    from cn have nr: "0 \<le> n" "nat n < length ?g" by (simp_all add: closedIn_def)
    have "m \<in> reachAvoiding tgt ?g ?V n \<and> closedIn tgt ?g (marked (vis st')) m"
      if m: "m \<in> marked (vis st') - ?V" for m
    proof (cases "m = n")
      case True
      with cn n show ?thesis by (simp add: reachAvoiding_self)
    next
      case False
      with m new obtain h where h: "h \<in> set (?g ! nat n)"
        "m \<in> reachAvoiding tgt ?g (insert n ?V) (tgt h)"
        and cm: "closedIn tgt ?g (marked (vis st')) m" by blast
      have "(n, tgt h) \<in> arcsOf tgt ?g" using h(1) nr by (auto simp: arcsOf_def)
      from reachAvoiding_step[OF n(2) this] reachAvoiding_antimono[of ?V "insert n ?V" tgt ?g "tgt h"] h(2)
      have "m \<in> reachAvoiding tgt ?g ?V n" by blast
      with cm show ?thesis by simp
    qed
    with nin show ?thesis by (simp add: marks_def)
  qed
qed

lemma marks_reachAvoiding:
  assumes m: "marks tgt n st st'" and e: "ext st st'"
  shows "marked (vis st') = marked (vis st) \<union> reachAvoiding tgt (gr st) (marked (vis st)) n"
proof -
  let ?g = "gr st" and ?V = "marked (vis st)" and ?M = "marked (vis st')"
  let ?R = "{(u, v). (u, v) \<in> arcsOf tgt ?g \<and> u \<notin> ?V \<and> v \<notin> ?V}"
  have "m \<in> ?M" if "m \<in> reachAvoiding tgt ?g ?V n" for m
  proof -
    from that have nV: "n \<notin> ?V" and path: "(n, m) \<in> ?R\<^sup>*"
      by (auto simp: reachAvoiding_def split: if_splits)
    from path have "m \<in> ?M - ?V"
    proof (induction rule: rtrancl_induct)
      case base
      from m nV show ?case by (simp add: marks_def)
    next
      case (step y z)
      from step.IH m have "closedIn tgt ?g ?M y" by (simp add: marks_def)
      with step.hyps(2) show ?case by (auto simp: closedIn_def arcsOf_def)
    qed
    then show ?thesis by simp
  qed
  moreover have "m \<in> reachAvoiding tgt ?g ?V n" if "m \<in> ?M" "m \<notin> ?V" for m
    using that m by (simp add: marks_def)
  ultimately show ?thesis using ext_marked[OF e] by blast
qed

subsection \<open>Visitor calls in a traversal\<close>

lemma nodeCallsOf_append: "nodeCallsOf (xs @ ys) = nodeCallsOf xs @ nodeCallsOf ys"
  by (induction xs rule: nodeCallsOf.induct) simp_all

lemma replay_append: "replay cf (xs @ ys) u = replay cf ys (replay cf xs u)"
  by (simp add: replay_def)

lemma pairedEvs_append: "pairedEvs cf xs \<Longrightarrow> pairedEvs cf ys \<Longrightarrow> pairedEvs cf (xs @ ys)"
  by (simp add: pairedEvs_def nodeCallsOf_append visitsOf_append)

lemma paired_refl: "paired cf st st"
  by (auto simp: paired_def added_def pairedEvs_def intro: exI[of _ "[]"])

lemma paired_trans: "paired cf a b \<Longrightarrow> paired cf b c \<Longrightarrow> paired cf a c"
proof -
  assume "paired cf a b" "paired cf b c"
  then obtain e1 e2 where "added a b e1" "pairedEvs cf e1" "added b c e2" "pairedEvs cf e2"
    unfolding paired_def by blast
  then have "added a c (e1 @ e2)" "pairedEvs cf (e1 @ e2)"
    by (simp_all add: added_def pairedEvs_append)
  then show ?thesis unfolding paired_def by blast
qed

lemma paired_arcStep: "paired cf st (arcStep cf n x st)"
  unfolding paired_def
  by (rule exI[of _ "case arcVisitor cf of Some v \<Rightarrow> [ArcCall n x] | None \<Rightarrow> []"])
     (simp add: arcStep_def callArc_def added_def pairedEvs_def split: option.splits)

lemma paired_arcOrder: "paired cf st (snd (arcOrder cf k st))"
  unfolding paired_def
  by (rule exI[of _ "[]"])
     (simp add: arcOrder_def callPerm_def added_def pairedEvs_def split: option.splits)

lemma paired_visit_nodeStep:
  "paired cf st (nodeStep cf n (st\<lparr>vis := b, trace := trace st @ [Visit n]\<rparr>))"
  unfolding paired_def
  by (rule exI[of _ "case nodeVisitor cf of Some v \<Rightarrow> [Visit n, NodeCall n] | None \<Rightarrow> [Visit n]"])
     (simp add: nodeStep_def callNode_def added_def pairedEvs_def split: option.splits)

lemma mkTraverse_rel_from:
  assumes refl: "\<And>s. R s s"
    and trans: "\<And>a b c. R a b \<Longrightarrow> R b c \<Longrightarrow> R a c"
    and arc: "\<And>x s. R s (arcStep cf n x s)"
    and ord: "\<And>k s. R s (snd (arcOrder cf k s))"
    and t: "\<And>m s. post (R s) (t m s)"
  shows "post (R (nodeStep cf n st)) (mkTraverse tgt cf t n st)"
proof -
  let ?st0 = "nodeStep cf n st"
  show ?thesis
  proof (cases "index (gr ?st0) n")
    case None
    then show ?thesis by (simp add: mkTraverse_unfold post_def refl)
  next
    case (Some to)
    obtain p st1 where ao: "arcOrder cf (length to) ?st0 = (p, st1)" by force
    have e1: "R ?st0 st1" using ord[of ?st0 "length to"] ao by simp
    have "post (R st1) (forEach (\<lambda>x s. atIndex tgt to x t (arcStep cf n x s)) p st1)"
    proof (rule forEach_post[where R = R, OF refl trans])
      fix x s
      have "post (R (arcStep cf n x s)) (atIndex tgt to x t (arcStep cf n x s))"
        by (rule atIndex_post[OF t refl])
      with trans arc[of s x] show "post (R s) (atIndex tgt to x t (arcStep cf n x s))"
        by (rule post_trans)
    qed
    with trans e1
    have "post (R ?st0) (forEach (\<lambda>x s. atIndex tgt to x t (arcStep cf n x s)) p st1)"
      by (rule post_trans)
    then show ?thesis using Some ao by (simp add: mkTraverse_unfold)
  qed
qed

lemma traverse_paired: "post (paired cf st) (traverse k (mkTraverse tgt cf) n st)"
proof (induction k arbitrary: n st)
  case 0
  show ?case by (simp add: post_def)
next
  case (Suc k)
  show ?case
  proof (cases "n < 0 \<or> Bits_Bit (vis st) (nat n)")
    case True
    then show ?thesis by (auto simp: visitedFunc_def post_def paired_refl)
  next
    case False
    let ?st' = "st\<lparr>vis := Bits_SetBit (vis st) (nat n), trace := trace st @ [Visit n]\<rparr>"
    from False have v: "visitedFunc n st = Ret False ?st'" by (simp add: visitedFunc_def)
    have "post (paired cf (nodeStep cf n ?st'))
            (mkTraverse tgt cf (traverse k (mkTraverse tgt cf)) n ?st')"
      by (rule mkTraverse_rel_from[where R = "paired cf", OF paired_refl paired_trans
            paired_arcStep paired_arcOrder Suc.IH])
    with paired_trans paired_visit_nodeStep
    have "post (paired cf st) (mkTraverse tgt cf (traverse k (mkTraverse tgt cf)) n ?st')"
      by (rule post_trans)
    with v show ?thesis by simp
  qed
qed

lemma replayed_step:
  "added st st' evs \<Longrightarrow> usr st' = replay cf evs (usr st) \<Longrightarrow> replayed cf st st'"
  unfolding replayed_def by blast

lemma stepRel_replayed:
  "stepRel cf (replayed cf :: ('g, 'u, 'r) store \<Rightarrow> ('g, 'u, 'r) store \<Rightarrow> bool)"
proof -
  let ?R = "replayed cf :: ('g, 'u, 'r) store \<Rightarrow> ('g, 'u, 'r) store \<Rightarrow> bool"
  have r: "?R s s" for s by (rule replayed_step[of _ _ "[]"]) (simp_all add: added_def replay_def)
  have t: "?R a b \<longrightarrow> ?R b c \<longrightarrow> ?R a c" for a b c
  proof (intro impI)
    assume "?R a b" "?R b c"
    then obtain e1 e2 where "added a b e1" "usr b = replay cf e1 (usr a)" "added b c e2"
      "usr c = replay cf e2 (usr b)" unfolding replayed_def by blast
    then have "added a c (e1 @ e2)" "usr c = replay cf (e1 @ e2) (usr a)"
      by (simp_all add: added_def replay_append)
    then show "?R a c" by (rule replayed_step)
  qed
  have ns: "?R s (nodeStep cf n s)" for n s
    by (rule replayed_step[of _ _ "case nodeVisitor cf of Some v \<Rightarrow> [NodeCall n] | None \<Rightarrow> []"])
       (simp_all add: nodeStep_def callNode_def added_def replay_def split: option.splits)
  have as: "?R s (arcStep cf n x s)" for n x s
    by (rule replayed_step[of _ _ "case arcVisitor cf of Some v \<Rightarrow> [ArcCall n x] | None \<Rightarrow> []"])
       (simp_all add: arcStep_def callArc_def added_def replay_def split: option.splits)
  have on: "?R s (snd (okNodeStep cf n s))" for n s
  proof (cases "okNodeVisitor cf")
    case None
    with ns[of s n] show ?thesis by (simp add: okNodeStep_def)
  next
    case (Some v)
    then show ?thesis
      by (intro replayed_step[of _ _ "[OkNodeCall n (fst (v n (usr s)))]"])
         (simp_all add: okNodeStep_def callOkNode_def added_def replay_def)
  qed
  have oa: "?R s (snd (okArcStep cf n x s))" for n x s
  proof (cases "okArcVisitor cf")
    case None
    with as[of s n x] show ?thesis by (simp add: okArcStep_def)
  next
    case (Some v)
    then show ?thesis
      by (intro replayed_step[of _ _ "[OkArcCall n x (fst (v n x (usr s)))]"])
         (simp_all add: okArcStep_def callOkArc_def added_def replay_def)
  qed
  have ao: "?R s (snd (arcOrder cf k s))" for k s
    by (rule replayed_step[of _ _ "[]"])
       (simp_all add: arcOrder_def callPerm_def added_def replay_def split: option.splits)
  have v: "post (?R s) (visitedFunc n s)" for n s
  proof -
    have "?R s (s\<lparr>vis := b, trace := trace s @ [Visit n]\<rparr>)" for b
      by (rule replayed_step[of _ _ "[Visit n]"]) (simp_all add: added_def replay_def)
    then show ?thesis by (simp add: visitedFunc_def post_def r)
  qed
  show ?thesis unfolding stepRel_def using r t ns as on oa ao v by simp
qed

subsection \<open>The entry points\<close>

lemma dfFunc_traverse:
  assumes "traversalMode cf"
  shows "dfFunc tgt k cf = traverse k (mkTraverse tgt cf)"
proof -
  have "mkTraverse tgt cf = (\<lambda>t. composeTraverseVisitor cf (recurseTraverse tgt cf t))"
    by (simp add: mkTraverse_def fun_eq_iff)
  with assms show ?thesis by (simp add: dfFunc_def traversalMode_def)
qed

lemma dfFunc_search:
  assumes "\<not> traversalMode cf"
  shows "dfFunc tgt k cf start st = dropResult (search k (mkSearch tgt cf) start st)"
proof -
  have "mkSearch tgt cf = (\<lambda>s. composeSearchVisitor cf (recurseSearch tgt cf s))"
    by (simp add: mkSearch_def fun_eq_iff)
  with assms show ?thesis by (auto simp: dfFunc_def traversalMode_def)
qed

lemma marked_zeroBits: "marked zeroBits = {}"
  by (simp add: marked_def zeroBits_def Bits_Bit_def)

lemma enter_simps:
  "gr (enter t b u r) = t" "vis (enter t b u r) = b" "usr (enter t b u r) = u"
  "rnd (enter t b u r) = r" "trace (enter t b u r) = []"
  by (simp_all add: enter_def)

lemma ext_enter_trace:
  assumes "ext (enter t b u r) st'"
  shows "gr st' = t \<and> distinct (visitsOf (trace st')) \<and>
         set (visitsOf (trace st')) = marked (vis st') - marked b"
  using assms by (auto simp: ext_def enter_simps)

lemma dfFunc_traversal:
  assumes wf: "boundsOk tgt t" "randOk cf" and tm: "traversalMode cf"
    and start: "0 \<le> start" "nat start < length t" and k: "length t < k"
  shows "\<exists>st'. dfFunc tgt k cf start (enter t b u r) = Ret () st' \<and> gr st' = t \<and>
           marked (vis st') = marked b \<union> reachAvoiding tgt t (marked b) start \<and>
           distinct (visitsOf (trace st')) \<and>
           set (visitsOf (trace st')) = reachAvoiding tgt t (marked b) start \<and>
           pairedEvs cf (trace st') \<and> usr st' = replay cf (trace st') u"
proof -
  let ?st = "enter t b u r"
  have c: "card (unmarked ?st) < k" using card_unmarked_le[of ?st] k by (simp add: enter_simps)
  from traverse_total[OF wf _ c start]
  obtain st' where run: "traverse k (mkTraverse tgt cf) start ?st = Ret () st'"
    by (auto simp: enter_simps)
  have e: "ext ?st st'" using traverse_ext[of ?st k tgt cf start] run by (simp add: post_def)
  from marks_reachAvoiding[OF traverse_marks[OF wf(2) run] e]
  have m: "marked (vis st') = marked b \<union> reachAvoiding tgt t (marked b) start"
    by (simp add: enter_simps)
  have "reachAvoiding tgt t (marked b) start \<inter> marked b = {}"
    by (auto simp: reachAvoiding_def elim: rtranclE)
  with m have d: "marked (vis st') - marked b = reachAvoiding tgt t (marked b) start" by blast
  have p: "pairedEvs cf (trace st')"
    using traverse_paired[where cf = cf and st = ?st and k = k and tgt = tgt and n = start] run
    by (simp add: post_def paired_def added_def enter_simps)
  have "replayed cf ?st st'"
    using traverse_rel[OF stepRel_replayed[of cf], where st = ?st and k = k and tgt = tgt and n = start] run by (simp add: post_def)
  then have u: "usr st' = replay cf (trace st') u"
    by (simp add: replayed_def added_def enter_simps)
  from ext_enter_trace[OF e] m d run p u show ?thesis by (simp add: dfFunc_traverse[OF tm])
qed

lemma markedIn_visitedBits: "markedIn (Some (visitedBits cf)) = markedIn (visited cf)"
  by (simp add: markedIn_def visitedBits_def marked_zeroBits split: option.splits)

lemma marked_visitedBits: "marked (visitedBits cf) = markedIn (visited cf)"
  using markedIn_visitedBits[of cf] by (simp add: markedIn_def)

lemma traversalMode_no_conflict: "traversalMode cf \<Longrightarrow> \<not> conflict cf"
  by (simp add: traversalMode_def conflict_def)

lemma Search_unfold:
  "\<not> conflict (configure options) \<Longrightarrow>
   Search k g start options u r =
     (let cf = configure options; b = visitedBits cf in
      case g of
        AdjacencyList t \<Rightarrow> finish AdjacencyList (dfFunc (\<lambda>to. to) k cf start (enter t b u r))
      | LabeledAdjacencyList t \<Rightarrow> finish LabeledAdjacencyList (dfFunc To k cf start (enter t b u r))
      | OtherValue \<Rightarrow>
          Ret (Some ErrGraphType) \<lparr>graph = g, bits = Some b, user = u, gen = r, events = []\<rparr>)"
  by (auto simp: Search_def conflict_def Let_def adjFunc_def labFunc_def split: gval.splits)

lemma marked_clear: "digits b = 0 \<Longrightarrow> marked b = {}"
  by (simp add: marked_def Bits_Bit_def)

lemma freshBits_marked:
  "freshBits cf \<Longrightarrow> marked (visitedBits cf) = {}"
  by (auto simp: freshBits_def visitedBits_def marked_zeroBits marked_clear split: option.splits)

lemma reachable_example: "1 \<in> reachableFrom (AdjacencyList [[1], [0]]) 0"
proof -
  have "(0, 1) \<in> arcsOf (\<lambda>to. to) [[1], [0 :: int]]" by (simp add: arcsOf_def)
  then show ?thesis by (simp add: reachableFrom_def reachable_def r_into_rtrancl)
qed

theorem Search_premarked_counterexample:
  "traversalMode (configure [Visited \<lparr>nbits = 1, digits = 1\<rparr>] :: (unit, unit) config) \<and>
   Search 3 (AdjacencyList [[1], [0]]) 0 [Visited \<lparr>nbits = 1, digits = 1\<rparr>] () () =
     Ret None \<lparr>graph = AdjacencyList [[1], [0]], bits = Some \<lparr>nbits = 1, digits = 1\<rparr>,
                user = (), gen = (), events = []\<rparr> \<and>
   1 \<in> reachableFrom (AdjacencyList [[1], [0]]) 0"
proof -
  have "Search 3 (AdjacencyList [[1], [0]]) 0 [Visited \<lparr>nbits = 1, digits = 1\<rparr>] () () =
     Ret None \<lparr>graph = AdjacencyList [[1], [0]], bits = Some \<lparr>nbits = 1, digits = 1\<rparr>,
                user = (), gen = (), events = []\<rparr>"
    by code_simp
  moreover have
    "traversalMode (configure [Visited \<lparr>nbits = 1, digits = 1\<rparr>] :: (unit, unit) config)"
    by (simp add: traversalMode_def configure_def config0_def Visited_def)
  ultimately show ?thesis using reachable_example by simp
qed

text \<open>
  Claim C1, amended. Take an adjacency list, plain or labeled, whose arcs all lead to nodes
  of the graph, a start node of the graph, and a configuration without conditional
  visitor, with any unconditional visitors and with or without a random source (one that
  yields permutations). With any bound on the recursion depth above the number of nodes,
  \<open>Search\<close> returns nil, cyclic graph or not. The nodes it visits are exactly the nodes
  reachable from the start node along arcs whose nodes are all unmarked in the visited
  bitset at the call; each is visited once; they are the bits added to the bitset. The
  node visitor, if one is configured, is called exactly at the visits, in their order, and
  the caller's state at the end is the result of the visitor calls of the history. When no
  bitset is supplied, or the supplied one is all clear, the nodes visited are all the
  nodes reachable from the start node.
\<close>

theorem Search_traversal_visits_reachable:
  assumes "graphOk g" and "0 \<le> start" and "nat start < order g"
    and "traversalMode (configure options)" and "randOk (configure options)"
    and "order g < k"
  shows "\<exists>w. Search k g start options u r = Ret None w \<and> graph w = g \<and>
           (\<exists>b. bits w = Some b \<and>
                marked b = markedIn (visited (configure options)) \<union>
                  reachAvoidingFrom g (markedIn (visited (configure options))) start) \<and>
           distinct (visitsOf (events w)) \<and>
           set (visitsOf (events w)) =
             reachAvoidingFrom g (markedIn (visited (configure options))) start \<and>
           nodeCallsOf (events w) =
             (if nodeVisitor (configure options) = None then [] else visitsOf (events w)) \<and>
           user w = replay (configure options) (events w) u \<and>
           (freshBits (configure options) \<longrightarrow>
              reachAvoidingFrom g (markedIn (visited (configure options))) start =
              reachableFrom g start)"
proof -
  let ?cf = "configure options"
  let ?b = "visitedBits ?cf"
  have nc: "\<not> conflict ?cf" using assms(4) by (rule traversalMode_no_conflict)
  have mb: "marked ?b = markedIn (visited ?cf)" by (rule marked_visitedBits)
  have fr: "freshBits ?cf \<longrightarrow> markedIn (visited ?cf) = {}"
    using freshBits_marked[of ?cf] mb by simp
  show ?thesis
  proof (cases g)
    case (AdjacencyList t)
    with assms have "boundsOk (\<lambda>to. to) t" "nat start < length t" "length t < k"
      by (simp_all add: graphOk_def order_def)
    from dfFunc_traversal[OF this(1) assms(5,4,2) this(2,3), of ?b u r]
    show ?thesis using AdjacencyList fr
      by (auto simp: Search_unfold[OF nc] Let_def finish_def leave_def reachableFrom_def
          reachAvoidingFrom_def reachAvoiding_empty mb pairedEvs_def)
  next
    case (LabeledAdjacencyList t)
    with assms have "boundsOk To t" "nat start < length t" "length t < k"
      by (simp_all add: graphOk_def order_def)
    from dfFunc_traversal[OF this(1) assms(5,4,2) this(2,3), of ?b u r]
    show ?thesis using LabeledAdjacencyList fr
      by (auto simp: Search_unfold[OF nc] Let_def finish_def leave_def reachableFrom_def
          reachAvoidingFrom_def reachAvoiding_empty mb pairedEvs_def)
  next
    case OtherValue
    with assms(1) show ?thesis by (simp add: graphOk_def)
  qed
qed

theorem Search_traversal_visits_reachable_witness:
  "Search 6 (AdjacencyList [[1, 2], [2, 0], [3], [], [0]]) 0
      [\<lambda>c. c\<lparr>rand := Some (\<lambda>s n. (rev [0..<n], s))\<rparr>,
       \<lambda>c. c\<lparr>nodeVisitor := Some (\<lambda>n u. u @ [n])\<rparr>] [] () =
     Ret None \<lparr>graph = AdjacencyList [[1, 2], [2, 0], [3], [], [0]],
                bits = Some \<lparr>nbits = 4, digits = 15\<rparr>, user = [0, 2, 3, 1], gen = (),
                events = [Visit 0, NodeCall 0, Visit 2, NodeCall 2, Visit 3, NodeCall 3,
                          Visit 1, NodeCall 1]\<rparr> \<and>
   reachableFrom (AdjacencyList [[1, 2], [2, 0], [3], [], [0]]) 0 = {0, 2, 3, 1}"
proof -
  let ?g = "AdjacencyList [[1, 2], [2, 0], [3], [], [0]]"
  let ?o = "[\<lambda>c. c\<lparr>rand := Some (\<lambda>s n. (rev [0..<n], s))\<rparr>,
             \<lambda>c. c\<lparr>nodeVisitor := Some (\<lambda>n u. u @ [n])\<rparr>]
            :: ((int list, unit) config \<Rightarrow> (int list, unit) config) list"
  have h: "graphOk ?g" "traversalMode (configure ?o)" "randOk (configure ?o)"
    "freshBits (configure ?o)"
    by (simp_all add: graphOk_def boundsOk_def configure_def config0_def traversalMode_def
        randOk_def permOk_def freshBits_def)
  have s: "(0::int) \<le> 0" "nat 0 < order ?g" "order ?g < 6" by (simp_all add: order_def)
  have run: "Search 6 ?g 0 ?o [] () =
     Ret None \<lparr>graph = ?g, bits = Some \<lparr>nbits = 4, digits = 15\<rparr>, user = [0, 2, 3, 1],
                gen = (),
                events = [Visit 0, NodeCall 0, Visit 2, NodeCall 2, Visit 3, NodeCall 3,
                          Visit 1, NodeCall 1]\<rparr>"
    by code_simp
  from Search_traversal_visits_reachable[OF h(1) s(1,2) h(2,3) s(3), of "[]" "()"] h(4)
  have "reachableFrom ?g 0 = {0, 2, 3, 1}"
    unfolding run by auto
  with run show ?thesis by simp
qed

subsection \<open>Search returns\<close>

lemma dfFunc_total:
  assumes wf: "boundsOk tgt t" "randOk cf"
    and start: "0 \<le> start" "nat start < length t" and k: "length t < k"
  shows "\<exists>st'. dfFunc tgt k cf start (enter t b u r) = Ret () st'"
proof -
  let ?st = "enter t b u r"
  have c: "card (unmarked ?st) < k" using card_unmarked_le[of ?st] k by (simp add: enter_simps)
  have g: "gr ?st = t" by (simp add: enter_simps)
  show ?thesis
  proof (cases "traversalMode cf")
    case True
    with traverse_total[OF wf g c start] show ?thesis by (simp add: dfFunc_traverse)
  next
    case False
    from search_total[OF wf g c start] obtain ok st' where
      "search k (mkSearch tgt cf) start ?st = Ret ok st'" by blast
    with False show ?thesis by (simp add: dfFunc_search dropResult_def)
  qed
qed

lemma Search_returns:
  assumes "graphOk g" and "0 \<le> start" and "nat start < order g"
    and "\<not> conflict (configure options)" and "randOk (configure options)" and "order g < k"
  shows "\<exists>w. Search k g start options u r = Ret None w"
proof (cases g)
  case (AdjacencyList t)
  with assms have "boundsOk (\<lambda>to. to) t" "nat start < length t" "length t < k"
    by (simp_all add: graphOk_def order_def)
  from dfFunc_total[OF this(1) assms(5,2) this(2,3), of "visitedBits (configure options)" u r]
  show ?thesis using AdjacencyList
    by (auto simp: Search_unfold[OF assms(4)] Let_def finish_def)
next
  case (LabeledAdjacencyList t)
  with assms have "boundsOk To t" "nat start < length t" "length t < k"
    by (simp_all add: graphOk_def order_def)
  from dfFunc_total[OF this(1) assms(5,2) this(2,3), of "visitedBits (configure options)" u r]
  show ?thesis using LabeledAdjacencyList
    by (auto simp: Search_unfold[OF assms(4)] Let_def finish_def)
next
  case OtherValue
  with assms(1) show ?thesis by (simp add: graphOk_def)
qed

lemma Search_conflict:
  assumes "conflict (configure options)"
  shows "\<exists>e. Search k g start options u r =
           Ret (Some e) \<lparr>graph = g, bits = visited (configure options), user = u, gen = r,
                         events = []\<rparr>"
  using assms by (auto simp: Search_def conflict_def Let_def)

lemma Search_other:
  assumes "\<not> conflict (configure options)"
  shows "Search k OtherValue start options u r =
           Ret (Some ErrGraphType)
             \<lparr>graph = OtherValue, bits = Some (visitedBits (configure options)), user = u,
               gen = r, events = []\<rparr>"
  by (simp add: Search_unfold[OF assms] Let_def)

text \<open>
  Claim C4. When the configuration holds both a node visitor and a conditional node
  visitor, or both an arc visitor and a conditional arc visitor, or when the graph
  argument is neither kind of adjacency list, \<open>Search\<close> returns an error, whatever the
  depth bound, and nothing has happened: the history is empty, the caller's state, the
  generator and the graph are as they were, and no bit of the caller's bitset has changed.
  Otherwise, on a graph whose arcs and start node are nodes of the graph and with a
  random source (if any) that yields permutations, \<open>Search\<close> returns nil for every depth
  bound above the number of nodes.
\<close>

theorem Search_error_or_nil:
  "((conflict (configure options) \<or> g = OtherValue) \<longrightarrow>
      (\<exists>e w. Search k g start options u r = Ret (Some e) w \<and> events w = [] \<and> user w = u \<and>
             gen w = r \<and> graph w = g \<and> markedIn (bits w) = markedIn (visited (configure options)))) \<and>
   (\<not> (conflict (configure options) \<or> g = OtherValue) \<and> graphOk g \<and> 0 \<le> start \<and>
    nat start < order g \<and> randOk (configure options) \<and> order g < k \<longrightarrow>
      (\<exists>w. Search k g start options u r = Ret None w))"
proof (intro conjI impI)
  assume bad: "conflict (configure options) \<or> g = OtherValue"
  show "\<exists>e w. Search k g start options u r = Ret (Some e) w \<and> events w = [] \<and> user w = u \<and>
             gen w = r \<and> graph w = g \<and> markedIn (bits w) = markedIn (visited (configure options))"
  proof (cases "conflict (configure options)")
    case True
    from Search_conflict[OF this, of k g start u r] show ?thesis by auto
  next
    case False
    with bad have "g = OtherValue" by simp
    with Search_other[OF False, of k start u r] show ?thesis
      by (simp add: markedIn_visitedBits)
  qed
next
  assume "\<not> (conflict (configure options) \<or> g = OtherValue) \<and> graphOk g \<and> 0 \<le> start \<and>
    nat start < order g \<and> randOk (configure options) \<and> order g < k"
  then show "\<exists>w. Search k g start options u r = Ret None w"
    using Search_returns[of g start options k u r] by simp
qed

theorem Search_error_or_nil_witness:
  "(\<exists>e w. Search 0 (AdjacencyList [[1], [0]]) 0
            [\<lambda>c. c\<lparr>nodeVisitor := Some (\<lambda>n u. n # u)\<rparr>,
             \<lambda>c. c\<lparr>okNodeVisitor := Some (\<lambda>n u. (True, u))\<rparr>] [] () = Ret (Some e) w \<and>
          events w = [] \<and> user w = []) \<and>
   (\<exists>e w. Search 3 OtherValue 0 [] () () = Ret (Some e) w \<and> events w = []) \<and>
   (\<exists>w. Search 3 (AdjacencyList [[1], [0]]) 0
            [\<lambda>c. c\<lparr>okNodeVisitor := Some (\<lambda>n u. (n \<noteq> 1, n # u))\<rparr>] [] () = Ret None w)"
proof -
  let ?both = "[\<lambda>c. c\<lparr>nodeVisitor := Some (\<lambda>n u. n # u)\<rparr>,
             \<lambda>c. c\<lparr>okNodeVisitor := Some (\<lambda>n u. (True, u))\<rparr>]
             :: ((int list, unit) config \<Rightarrow> (int list, unit) config) list"
  let ?ok = "[\<lambda>c. c\<lparr>okNodeVisitor := Some (\<lambda>n u. (n \<noteq> 1, n # u))\<rparr>]
             :: ((int list, unit) config \<Rightarrow> (int list, unit) config) list"
  let ?g = "AdjacencyList [[1], [0]]"
  have 1: "conflict (configure ?both)"
    by (simp add: conflict_def configure_def config0_def)
  have 2: "\<not> conflict (configure ([] :: ((unit, unit) config \<Rightarrow> (unit, unit) config) list))"
    by (simp add: conflict_def configure_def config0_def)
  have 3: "\<not> (conflict (configure ?ok) \<or> ?g = OtherValue) \<and> graphOk ?g \<and> (0::int) \<le> 0 \<and>
    nat 0 < order ?g \<and> randOk (configure ?ok) \<and> order ?g < 3"
    by (simp add: conflict_def configure_def config0_def graphOk_def boundsOk_def order_def
        randOk_def)
  have a: "\<exists>e w. Search 0 ?g 0 ?both [] () = Ret (Some e) w \<and> events w = [] \<and> user w = []"
    using Search_error_or_nil[of ?both ?g 0 0 "[]" "()"] 1 by blast
  have b: "\<exists>e w. Search 3 OtherValue 0 [] () () = Ret (Some e) w \<and> events w = []"
    using Search_error_or_nil[of "[]" OtherValue 3 0 "()" "()"] by blast
  have c: "\<exists>w. Search 3 ?g 0 ?ok [] () = Ret None w"
    using Search_error_or_nil[of ?ok ?g 3 0 "[]" "()"] 3 by blast
  from a b c show ?thesis by blast
qed

subsection \<open>The frame of Search\<close>

lemma post_finish:
  assumes "post Q r" and "\<And>st. Q st \<Longrightarrow> P (leave wrap st)"
  shows "post P (finish wrap r)"
  using assms by (auto simp: post_def finish_def split: res.splits)

text \<open>
  Claim C9. However \<open>Search\<close> ends, the graph value is the one that was passed in.
  Moreover the generator is untouched unless a random source is configured, and the
  caller's state is untouched unless a visitor is configured: what is left for
  \<open>Search\<close> to write is the visited bitset.
\<close>

theorem Search_graph_unchanged:
  "post (\<lambda>w. graph w = g \<and>
              (rand (configure options) = None \<longrightarrow> gen w = r) \<and>
              (noVisitor (configure options) \<longrightarrow> user w = u))
        (Search k g start options u r)"
proof (cases "conflict (configure options)")
  case True
  from Search_conflict[OF this, of k g start u r] show ?thesis by (auto simp: post_def)
next
  case False
  let ?cf = "configure options"
  let ?b = "visitedBits ?cf"
  show ?thesis
  proof (cases g)
    case (AdjacencyList t)
    have "post (frame ?cf (enter t ?b u r)) (dfFunc (\<lambda>to. to) k ?cf start (enter t ?b u r))"
      using stepRel_frame by (rule dfFunc_rel)
    then show ?thesis unfolding Search_unfold[OF False] Let_def AdjacencyList gval.case
      by (rule post_finish) (simp add: frame_def leave_def enter_simps)
  next
    case (LabeledAdjacencyList t)
    have "post (frame ?cf (enter t ?b u r)) (dfFunc To k ?cf start (enter t ?b u r))"
      using stepRel_frame by (rule dfFunc_rel)
    then show ?thesis unfolding Search_unfold[OF False] Let_def LabeledAdjacencyList gval.case
      by (rule post_finish) (simp add: frame_def leave_def enter_simps)
  next
    case OtherValue
    with Search_other[OF False, of k start u r] show ?thesis by (simp add: post_def)
  qed
qed

theorem Search_graph_unchanged_witness:
  "\<exists>w. Search 3 (LabeledAdjacencyList [[\<lparr>To = 1, Label = 7\<rparr>], [\<lparr>To = 0, Label = 7\<rparr>]]) 0 [] () () = Ret None w \<and>
       graph w = LabeledAdjacencyList [[\<lparr>To = 1, Label = 7\<rparr>], [\<lparr>To = 0, Label = 7\<rparr>]] \<and>
       gen w = () \<and> user w = () \<and> bits w = Some \<lparr>nbits = 2, digits = 3\<rparr>"
proof -
  let ?g = "LabeledAdjacencyList [[\<lparr>To = 1, Label = 7\<rparr>], [\<lparr>To = 0, Label = 7\<rparr>]]"
  have run: "Search 3 ?g 0 [] () () =
    Ret None \<lparr>graph = ?g, bits = Some \<lparr>nbits = 2, digits = 3\<rparr>, user = (), gen = (), events = [Visit 0, Visit 1]\<rparr>"
    by code_simp
  show ?thesis
    using Search_graph_unchanged[of ?g "[]" "()" "()" 3 0]
    by (simp add: run post_def)
qed

subsection \<open>Stop ends the search\<close>

lemma stopSpec_prefix:
  assumes "added st s1 evs1" and "filter isStop evs1 = []" and "stopSpec s1 r"
  shows "stopSpec st r"
proof (cases r)
  case (Ret ok st')
  with assms(3) obtain evs where evs: "added s1 st' evs"
    "if ok then filter isStop evs = []
     else evs \<noteq> [] \<and> isStop (last evs) \<and> filter isStop (butlast evs) = []"
    by (auto simp: stopSpec_def)
  have a: "added st st' (evs1 @ evs)" using assms(1) evs(1) by (simp add: added_def)
  show ?thesis
  proof (cases ok)
    case True
    with evs(2) assms(2) have "filter isStop (evs1 @ evs) = []" by simp
    with a True Ret show ?thesis unfolding stopSpec_def by (auto simp del: filter_append)
  next
    case False
    with evs(2) assms(2) have "evs1 @ evs \<noteq> []" "isStop (last (evs1 @ evs))"
      "filter isStop (butlast (evs1 @ evs)) = []" by (simp_all add: butlast_append)
    with a False Ret show ?thesis unfolding stopSpec_def by (auto simp del: filter_append)
  qed
next
  case (Panic st')
  with assms(3) obtain evs where "added s1 st' evs" "filter isStop evs = []"
    by (auto simp: stopSpec_def)
  with assms(1,2) have "added st st' (evs1 @ evs)" "filter isStop (evs1 @ evs) = []"
    by (simp_all add: added_def)
  with Panic show ?thesis unfolding stopSpec_def by (auto simp del: filter_append)
next
  case Timeout
  then show ?thesis by (simp add: stopSpec_def)
qed

lemma stopSpec_RetTrue: "stopSpec st (Ret True st)"
  by (simp add: stopSpec_def added_def)

lemma stopSpec_Panic: "stopSpec st (Panic st)"
  by (simp add: stopSpec_def added_def)

lemma stopSpec_RetFalse: "added st st' [e] \<Longrightarrow> isStop e \<Longrightarrow> stopSpec st (Ret False st')"
  unfolding stopSpec_def by (auto intro!: exI[of _ "[e]"])

lemma forWhile_stop:
  assumes "\<And>x s. x \<in> set xs \<Longrightarrow> stopSpec s (body x s)"
  shows "stopSpec st (forWhile body xs st)"
  using assms
proof (induction xs arbitrary: st)
  case Nil
  show ?case by (simp add: stopSpec_RetTrue)
next
  case (Cons x xs)
  have b: "stopSpec st (body x st)" using Cons.prems by simp
  show ?case
  proof (cases "body x st")
    case (Ret ok s1)
    show ?thesis
    proof (cases ok)
      case True
      with b Ret obtain evs where "added st s1 evs" "filter isStop evs = []"
        by (auto simp: stopSpec_def)
      moreover have "stopSpec s1 (forWhile body xs s1)" using Cons by simp
      ultimately have "stopSpec st (forWhile body xs s1)" by (rule stopSpec_prefix)
      with Ret True show ?thesis by simp
    next
      case False
      with b Ret show ?thesis by simp
    qed
  qed (use b in simp_all)
qed

lemma added_nodeStep: "\<exists>evs. added st (nodeStep cf n st) evs \<and> filter isStop evs = []"
  by (cases "nodeVisitor cf") (simp_all add: nodeStep_def callNode_def added_def)

lemma added_arcStep: "\<exists>evs. added st (arcStep cf n x st) evs \<and> filter isStop evs = []"
  by (cases "arcVisitor cf") (simp_all add: arcStep_def callArc_def added_def)

lemma added_arcOrder: "added st (snd (arcOrder cf k st)) []"
  by (simp add: arcOrder_def callPerm_def added_def split: option.splits)

lemma added_okNodeStep:
  "okNodeStep cf n st = (ok, st') \<Longrightarrow>
     (\<exists>evs. added st st' evs \<and> (if ok then filter isStop evs = [] else \<exists>e. evs = [e] \<and> isStop e))"
  using added_nodeStep[of st cf n]
  by (cases "okNodeVisitor cf") (auto simp: okNodeStep_def callOkNode_def added_def)

lemma added_okArcStep:
  "okArcStep cf n x st = (ok, st') \<Longrightarrow>
     (\<exists>evs. added st st' evs \<and> (if ok then filter isStop evs = [] else \<exists>e. evs = [e] \<and> isStop e))"
  using added_arcStep[of st cf n x]
  by (cases "okArcVisitor cf") (auto simp: okArcStep_def callOkArc_def added_def)

lemma stopSpec_okStep:
  assumes "added st st' evs" and "if ok then filter isStop evs = [] else \<exists>e. evs = [e] \<and> isStop e"
    and "ok \<Longrightarrow> stopSpec st' r"
  shows "stopSpec st (if \<not> ok then Ret False st' else r)"
proof (cases ok)
  case True
  with assms show ?thesis by (auto intro: stopSpec_prefix)
next
  case False
  with assms show ?thesis by (auto intro: stopSpec_RetFalse)
qed

lemma atIndex_stop:
  "(\<And>n. stopSpec st (f n st)) \<Longrightarrow> stopSpec st (atIndex tgt to x f st)"
  by (simp add: atIndex_def stopSpec_Panic)

lemma mkSearch_stop:
  fixes st :: "('g, 'u, 'r) store"
  assumes f: "\<And>n s. stopSpec s (f n s)"
  shows "stopSpec st (mkSearch tgt cf f n st)"
proof -
  obtain ok st0 where on: "okNodeStep cf n st = (ok, st0)" by force
  from added_okNodeStep[OF on] obtain evs0 where e0: "added st st0 evs0"
    "if ok then filter isStop evs0 = [] else \<exists>e. evs0 = [e] \<and> isStop e" by blast
  let ?rest = "case index (gr st0) n of
          None \<Rightarrow> Panic st0
        | Some to \<Rightarrow> (case arcOrder cf (length to) st0 of (p, st1) \<Rightarrow>
            forWhile (\<lambda>x s. case okArcStep cf n x s of (ok, s1) \<Rightarrow>
                       if \<not> ok then Ret False s1 else atIndex tgt to x f s1) p st1)"
  have rest: "stopSpec st0 ?rest"
  proof (cases "index (gr st0) n")
    case None
    then show ?thesis by (simp add: stopSpec_Panic)
  next
    case (Some to)
    obtain p st1 where ao: "arcOrder cf (length to) st0 = (p, st1)" by force
    have a1: "added st0 st1 []" using added_arcOrder[of st0 cf "length to"] ao by simp
    have "stopSpec st1 (forWhile (\<lambda>x s. case okArcStep cf n x s of (ok, s1) \<Rightarrow>
                       if \<not> ok then Ret False s1 else atIndex tgt to x f s1) p st1)"
    proof (rule forWhile_stop)
      fix x and s :: "('g, 'u, 'r) store"
      obtain ok1 s1 where oa: "okArcStep cf n x s = (ok1, s1)" by force
      from added_okArcStep[OF oa] obtain evs1 where e1: "added s s1 evs1"
        "if ok1 then filter isStop evs1 = [] else \<exists>e. evs1 = [e] \<and> isStop e" by blast
      have "stopSpec s (if \<not> ok1 then Ret False s1 else atIndex tgt to x f s1)"
        using e1 by (rule stopSpec_okStep) (rule atIndex_stop[OF f])
      with oa show "stopSpec s (case okArcStep cf n x s of (ok, s1) \<Rightarrow>
                       if \<not> ok then Ret False s1 else atIndex tgt to x f s1)" by simp
    qed
    then have "stopSpec st0 (forWhile (\<lambda>x s. case okArcStep cf n x s of (ok, s1) \<Rightarrow>
                       if \<not> ok then Ret False s1 else atIndex tgt to x f s1) p st1)"
      using stopSpec_prefix[OF a1] by simp
    with Some ao show ?thesis by simp
  qed
  have "stopSpec st (if \<not> ok then Ret False st0 else ?rest)"
    using e0 rest by (rule stopSpec_okStep)
  with on show ?thesis by (simp add: mkSearch_unfold)
qed

lemma search_stop: "stopSpec st (search k (mkSearch tgt cf) n st)"
proof (induction k arbitrary: n st)
  case 0
  show ?case by (simp add: stopSpec_def)
next
  case (Suc k)
  show ?case
  proof (cases "visitedFunc n st")
    case (Ret seen st')
    then have a: "\<exists>evs. added st st' evs \<and> filter isStop evs = []"
      by (auto simp: visitedFunc_def added_def split: if_splits)
    show ?thesis
    proof (cases seen)
      case True
      from a obtain evs where "added st st' evs" "filter isStop evs = []" by blast
      then have "stopSpec st (Ret True st')" using stopSpec_RetTrue by (rule stopSpec_prefix)
      with Ret True show ?thesis by simp
    next
      case False
      from a obtain evs where "added st st' evs" "filter isStop evs = []" by blast
      moreover have "stopSpec st' (mkSearch tgt cf (search k (mkSearch tgt cf)) n st')"
        by (rule mkSearch_stop) (rule Suc.IH)
      ultimately have "stopSpec st (mkSearch tgt cf (search k (mkSearch tgt cf)) n st')"
        by (rule stopSpec_prefix)
      with Ret False show ?thesis by simp
    qed
  next
    case (Panic st')
    then have "st' = st" by (auto simp: visitedFunc_def split: if_splits)
    with Panic show ?thesis by (simp add: stopSpec_Panic)
  next
    case Timeout
    then show ?thesis by (simp add: stopSpec_def)
  qed
qed

lemma stepRel_noStop:
  assumes "traversalMode cf"
  shows "stepRel cf (\<lambda>st st' :: ('g, 'u, 'r) store. \<exists>evs. added st st' evs \<and> filter isStop evs = [])"
proof -
  let ?R = "\<lambda>st st' :: ('g, 'u, 'r) store. \<exists>evs. added st st' evs \<and> filter isStop evs = []"
  have r: "?R s s" for s by (simp add: added_def)
  have t: "?R a b \<longrightarrow> ?R b c \<longrightarrow> ?R a c" for a b c
  proof (intro impI)
    assume "?R a b" "?R b c"
    then obtain e1 e2 where "added a b e1" "filter isStop e1 = []" "added b c e2"
      "filter isStop e2 = []" by blast
    then have "added a c (e1 @ e2)" "filter isStop (e1 @ e2) = []" by (simp_all add: added_def)
    then show "?R a c" by blast
  qed
  have on: "?R s (snd (okNodeStep cf n s))" for n s
    using assms added_nodeStep[of s cf n] by (simp add: okNodeStep_def traversalMode_def)
  have oa: "?R s (snd (okArcStep cf n x s))" for n x s
    using assms added_arcStep[of s cf n x] by (simp add: okArcStep_def traversalMode_def)
  have ao: "?R s (snd (arcOrder cf k s))" for k s
    using added_arcOrder[of s cf k] by auto
  have v: "post (?R s) (visitedFunc n s)" for n s
    by (auto simp: visitedFunc_def post_def added_def)
  have ns: "?R s (nodeStep cf n s)" for n s by (rule added_nodeStep)
  have as: "?R s (arcStep cf n x s)" for n x s by (rule added_arcStep)
  show ?thesis
    unfolding stepRel_def
    using r t on oa ao v ns as by simp
qed

lemma nostop_butlast: "filter isStop evs = [] \<Longrightarrow> filter isStop (butlast evs) = []"
  by (metis filter_empty_conv in_set_butlastD)

lemma dfFunc_stop:
  "post (\<lambda>st'. \<exists>evs. added st st' evs \<and> filter isStop (butlast evs) = [])
        (dfFunc tgt k cf n st)"
proof (cases "traversalMode cf")
  case True
  from dfFunc_rel[OF stepRel_noStop[OF True], of st tgt k n]
  show ?thesis by (rule post_mono) (blast intro: nostop_butlast)
next
  case False
  have "stopSpec st (search k (mkSearch tgt cf) n st)" by (rule search_stop)
  then show ?thesis
    by (auto simp: dfFunc_search[OF False] dropResult_def stopSpec_def post_def
        split: res.splits if_splits intro: nostop_butlast)
qed

lemma stop_is_last:
  assumes "filter isStop (butlast evs) = []" and "evs = pre @ ev # rest" and "isStop ev"
  shows "rest = []"
proof (rule ccontr)
  assume "rest \<noteq> []"
  then have "butlast evs = pre @ ev # butlast rest" using assms(2) by (simp add: butlast_append)
  with assms(1,3) show False by simp
qed

text \<open>
  Claim C2. However \<open>Search\<close> ends, a stop event in the history (a conditional node or
  arc visitor that answered stop) is the last event of the history: after it no node is
  marked and no visitor is called, at any level of the recursion. And on a graph whose
  arcs and start node are nodes of the graph, with a configuration that passes the
  checks and a random source (if any) that yields permutations, \<open>Search\<close> returns for
  every depth bound above the number of nodes.
\<close>

theorem Search_stop_is_final:
  "post (\<lambda>w. \<forall>pre ev rest. events w = pre @ ev # rest \<and> isStop ev \<longrightarrow> rest = [])
        (Search k g start options u r) \<and>
   (graphOk g \<and> 0 \<le> start \<and> nat start < order g \<and> \<not> conflict (configure options) \<and>
    randOk (configure options) \<and> order g < k \<longrightarrow>
      (\<exists>w. Search k g start options u r = Ret None w))"
proof
  show "post (\<lambda>w. \<forall>pre ev rest. events w = pre @ ev # rest \<and> isStop ev \<longrightarrow> rest = [])
        (Search k g start options u r)"
  proof (cases "conflict (configure options)")
    case True
    from Search_conflict[OF this, of k g start u r] show ?thesis by (auto simp: post_def)
  next
    case False
    let ?cf = "configure options"
    let ?b = "visitedBits ?cf"
    have fin: "\<forall>pre ev rest. events (leave wrap st') = pre @ ev # rest \<and> isStop ev \<longrightarrow> rest = []"
      if "\<exists>evs. added (enter t ?b u r) st' evs \<and> filter isStop (butlast evs) = []"
      for st' :: "('g, 'a, 'b) store" and t wrap
      using that by (auto simp: added_def enter_simps leave_def dest: stop_is_last)
    show ?thesis
    proof (cases g)
      case (AdjacencyList t)
      show ?thesis unfolding Search_unfold[OF False] Let_def AdjacencyList gval.case
        by (rule post_finish[OF dfFunc_stop]) (rule fin)
    next
      case (LabeledAdjacencyList t)
      show ?thesis unfolding Search_unfold[OF False] Let_def LabeledAdjacencyList gval.case
        by (rule post_finish[OF dfFunc_stop]) (rule fin)
    next
      case OtherValue
      with Search_other[OF False, of k start u r] show ?thesis by (simp add: post_def)
    qed
  qed
next
  show "graphOk g \<and> 0 \<le> start \<and> nat start < order g \<and> \<not> conflict (configure options) \<and>
    randOk (configure options) \<and> order g < k \<longrightarrow>
      (\<exists>w. Search k g start options u r = Ret None w)"
    using Search_returns[of g start options k u r] by blast
qed

theorem Search_stop_is_final_witness:
  "Search 6 (AdjacencyList [[1, 4], [2, 0], [3], [], [0]]) 0
      [\<lambda>c. c\<lparr>okNodeVisitor := Some (\<lambda>n u. (n \<noteq> 2, n # u))\<rparr>] [] () =
     Ret None \<lparr>graph = AdjacencyList [[1, 4], [2, 0], [3], [], [0]], bits = Some \<lparr>nbits = 3, digits = 7\<rparr>,
       user = [2, 1, 0], gen = (),
       events = [Visit 0, OkNodeCall 0 True, Visit 1, OkNodeCall 1 True, Visit 2,
                 OkNodeCall 2 False]\<rparr> \<and>
   isStop (OkNodeCall 2 False) \<and>
   drop 6 [Visit 0, OkNodeCall 0 True, Visit 1, OkNodeCall 1 True, Visit 2, OkNodeCall 2 False]
     = []"
proof -
  let ?g = "AdjacencyList [[1, 4], [2, 0], [3], [], [0]]"
  let ?o = "[\<lambda>c. c\<lparr>okNodeVisitor := Some (\<lambda>n u. (n \<noteq> 2, n # u))\<rparr>]
             :: ((int list, unit) config \<Rightarrow> (int list, unit) config) list"
  let ?evs = "[Visit 0, OkNodeCall 0 True, Visit 1, OkNodeCall 1 True, Visit 2,
                 OkNodeCall 2 False]"
  have run: "Search 6 ?g 0 ?o [] () =
     Ret None \<lparr>graph = ?g, bits = Some \<lparr>nbits = 3, digits = 7\<rparr>, user = [2, 1, 0], gen = (), events = ?evs\<rparr>"
    by code_simp
  have "\<forall>pre ev rest. ?evs = pre @ ev # rest \<and> isStop ev \<longrightarrow> rest = []"
    using Search_stop_is_final[of 6 ?g 0 ?o "[]" "()"] unfolding run by (simp add: post_def)
  then have "?evs = take 5 ?evs @ OkNodeCall 2 False # drop 6 ?evs \<and> isStop (OkNodeCall 2 False)
      \<longrightarrow> drop 6 ?evs = []"
    by blast
  then show ?thesis using run by simp
qed

subsection \<open>The internally allocated bitset\<close>

lemma configure_snoc: "configure (options @ [opt]) = opt (configure options)"
  by (simp add: configure_def)

lemma closures_visited:
  "toTraverse tgt (cf\<lparr>visited := v\<rparr>) t = toTraverse tgt cf t"
  "randTraverse tgt (cf\<lparr>visited := v\<rparr>) t p = randTraverse tgt cf t p"
  "toSearch tgt (cf\<lparr>visited := v\<rparr>) s = toSearch tgt cf s"
  "randSearch tgt (cf\<lparr>visited := v\<rparr>) s p = randSearch tgt cf s p"
  "composeTraverseVisitor (cf\<lparr>visited := v\<rparr>) f = composeTraverseVisitor cf f"
  "composeSearchVisitor (cf\<lparr>visited := v\<rparr>) h = composeSearchVisitor cf h"
  by (simp_all add: toTraverse_def randTraverse_def toSearch_def randSearch_def
      composeTraverseVisitor_def composeSearchVisitor_def split: option.splits)

lemma recurse_visited:
  "recurseTraverse tgt (cf\<lparr>visited := v\<rparr>) t = recurseTraverse tgt cf t"
  "recurseSearch tgt (cf\<lparr>visited := v\<rparr>) s = recurseSearch tgt cf s"
  by (simp_all add: recurseTraverse_def recurseSearch_def closures_visited split: option.splits)

lemma dfFunc_visited: "dfFunc tgt k (cf\<lparr>visited := v\<rparr>) = dfFunc tgt k cf"
  by (simp add: dfFunc_def closures_visited recurse_visited)

lemma simRes_Ret: "sim s s' \<Longrightarrow> simRes (Ret a s) (Ret a s')"
  by (simp add: simRes_def)

lemma simRes_Panic: "sim s s' \<Longrightarrow> simRes (Panic s) (Panic s')"
  by (simp add: simRes_def)

lemma simRes_iff:
  "simRes (Ret a s) r' = (\<exists>s'. r' = Ret a s' \<and> sim s s')"
  "simRes (Panic s) r' = (\<exists>s'. r' = Panic s' \<and> sim s s')"
  "simRes Timeout r' = (r' = Timeout)"
  by (auto simp: simRes_def split: res.splits)

lemma keepsSimD: "keepsSim f \<Longrightarrow> sim s s' \<Longrightarrow> simRes (f s) (f s')"
  by (simp add: keepsSim_def)

lemma keepsSimI: "(\<And>s s'. sim s s' \<Longrightarrow> simRes (f s) (f s')) \<Longrightarrow> keepsSim f"
  by (simp add: keepsSim_def)

lemma sim_visitedFunc: "keepsSim (visitedFunc n)"
  by (rule keepsSimI)
     (auto simp: visitedFunc_def sim_def simRes_def Bits_Bit_def Bits_SetBit_def)

lemma sim_nodeStep: "sim s s' \<Longrightarrow> sim (nodeStep cf n s) (nodeStep cf n s')"
  by (simp add: sim_def nodeStep_def callNode_def split: option.splits)

lemma sim_arcStep: "sim s s' \<Longrightarrow> sim (arcStep cf n x s) (arcStep cf n x s')"
  by (simp add: sim_def arcStep_def callArc_def split: option.splits)

lemma sim_arcOrder:
  "sim s s' \<Longrightarrow> fst (arcOrder cf k s') = fst (arcOrder cf k s) \<and>
     sim (snd (arcOrder cf k s)) (snd (arcOrder cf k s'))"
  by (simp add: sim_def arcOrder_def callPerm_def split: option.splits)

lemma sim_okNodeStep:
  "sim s s' \<Longrightarrow> fst (okNodeStep cf n s') = fst (okNodeStep cf n s) \<and>
     sim (snd (okNodeStep cf n s)) (snd (okNodeStep cf n s'))"
  by (simp add: sim_def okNodeStep_def nodeStep_def callNode_def callOkNode_def
      split: option.splits)

lemma sim_okArcStep:
  "sim s s' \<Longrightarrow> fst (okArcStep cf n x s') = fst (okArcStep cf n x s) \<and>
     sim (snd (okArcStep cf n x s)) (snd (okArcStep cf n x s'))"
  by (simp add: sim_def okArcStep_def arcStep_def callArc_def callOkArc_def
      split: option.splits)

lemma sim_forEach:
  assumes "\<And>x. keepsSim (body x)"
  shows "keepsSim (forEach body xs)"
proof (rule keepsSimI)
  fix s s' :: "('a, 'b, 'c) store"
  show "sim s s' \<Longrightarrow> simRes (forEach body xs s) (forEach body xs s')"
  proof (induction xs arbitrary: s s')
    case Nil
    then show ?case by (simp add: simRes_def)
  next
    case (Cons x xs)
    have b: "simRes (body x s) (body x s')" using assms Cons.prems by (rule keepsSimD)
    show ?case
    proof (cases "body x s")
      case (Ret u s1)
      with b obtain s1' where "body x s' = Ret u s1'" "sim s1 s1'" by (auto simp: simRes_iff)
      with Ret Cons.IH[of s1 s1'] show ?thesis by simp
    next
      case (Panic s1)
      with b show ?thesis by (auto simp: simRes_iff)
    next
      case Timeout
      with b show ?thesis by (auto simp: simRes_iff)
    qed
  qed
qed

lemma sim_forWhile:
  assumes "\<And>x. keepsSim (body x)"
  shows "keepsSim (forWhile body xs)"
proof (rule keepsSimI)
  fix s s' :: "('a, 'b, 'c) store"
  show "sim s s' \<Longrightarrow> simRes (forWhile body xs s) (forWhile body xs s')"
  proof (induction xs arbitrary: s s')
    case Nil
    then show ?case by (simp add: simRes_def)
  next
    case (Cons x xs)
    have b: "simRes (body x s) (body x s')" using assms Cons.prems by (rule keepsSimD)
    show ?case
    proof (cases "body x s")
      case (Ret ok s1)
      with b obtain s1' where "body x s' = Ret ok s1'" "sim s1 s1'" by (auto simp: simRes_iff)
      with Ret Cons.IH[of s1 s1'] show ?thesis by (simp add: simRes_iff)
    next
      case (Panic s1)
      with b show ?thesis by (auto simp: simRes_iff)
    next
      case Timeout
      with b show ?thesis by (auto simp: simRes_iff)
    qed
  qed
qed

lemma sim_atIndex:
  assumes "\<And>m. keepsSim (f m)"
  shows "keepsSim (atIndex tgt to x f)"
proof (rule keepsSimI)
  fix s s' :: "('a, 'b, 'c) store"
  assume "sim s s'"
  with keepsSimD[OF assms this] show "simRes (atIndex tgt to x f s) (atIndex tgt to x f s')"
    by (simp add: atIndex_def simRes_iff)
qed

lemma sim_mkTraverse:
  fixes t :: "NI \<Rightarrow> ('g, 'u, 'r) store \<Rightarrow> (unit, ('g, 'u, 'r) store) res"
  assumes t: "\<And>m. keepsSim (t m)"
  shows "keepsSim (mkTraverse tgt cf t n)"
proof (rule keepsSimI)
  fix s s' :: "('g, 'u, 'r) store"
  assume ss: "sim s s'"
  let ?s0 = "nodeStep cf n s" and ?s0' = "nodeStep cf n s'"
  have s0: "sim ?s0 ?s0'" using ss by (rule sim_nodeStep)
  then have g: "gr ?s0' = gr ?s0" by (simp add: sim_def)
  show "simRes (mkTraverse tgt cf t n s) (mkTraverse tgt cf t n s')"
  proof (cases "index (gr ?s0) n")
    case None
    with s0 g show ?thesis by (simp add: mkTraverse_unfold simRes_Panic)
  next
    case (Some to)
    obtain p s1 where ao: "arcOrder cf (length to) ?s0 = (p, s1)" by force
    obtain p' s1' where ao': "arcOrder cf (length to) ?s0' = (p', s1')" by force
    from sim_arcOrder[OF s0, of cf "length to"] ao ao' have pp: "p' = p" and s1: "sim s1 s1'"
      by simp_all
    have "keepsSim (forEach (\<lambda>x s. atIndex tgt to x t (arcStep cf n x s)) p)"
    proof (rule sim_forEach)
      fix x
      show "keepsSim (\<lambda>s. atIndex tgt to x t (arcStep cf n x s))"
        by (rule keepsSimI) (rule keepsSimD[OF sim_atIndex[OF t] sim_arcStep])
    qed
    from keepsSimD[OF this s1] show ?thesis using Some ao ao' pp g
      by (simp add: mkTraverse_unfold)
  qed
qed

lemma sim_traverse: "keepsSim (traverse k (mkTraverse tgt cf) n)"
proof (induction k arbitrary: n)
  case 0
  show ?case by (simp add: keepsSim_def simRes_def)
next
  case (Suc k)
  show ?case
  proof (rule keepsSimI)
    fix s s' :: "('a, 'b, 'c) store"
    assume ss: "sim s s'"
    have v: "simRes (visitedFunc n s) (visitedFunc n s')"
      using sim_visitedFunc ss by (rule keepsSimD)
    have m: "keepsSim (mkTraverse tgt cf (traverse k (mkTraverse tgt cf)) n)"
      by (rule sim_mkTraverse) (rule Suc.IH)
    show "simRes (traverse (Suc k) (mkTraverse tgt cf) n s)
            (traverse (Suc k) (mkTraverse tgt cf) n s')"
    proof (cases "visitedFunc n s")
      case (Ret seen s1)
      with v obtain s1' where "visitedFunc n s' = Ret seen s1'" "sim s1 s1'"
        by (auto simp: simRes_iff)
      with Ret keepsSimD[OF m this(2)] show ?thesis by (simp add: simRes_iff)
    next
      case (Panic s1)
      with v show ?thesis by (auto simp: simRes_iff)
    next
      case Timeout
      with v show ?thesis by (auto simp: simRes_iff)
    qed
  qed
qed

lemma sim_mkSearch:
  fixes f :: "NI \<Rightarrow> ('g, 'u, 'r) store \<Rightarrow> (bool, ('g, 'u, 'r) store) res"
  assumes f: "\<And>m. keepsSim (f m)"
  shows "keepsSim (mkSearch tgt cf f n)"
proof (rule keepsSimI)
  fix s s' :: "('g, 'u, 'r) store"
  assume ss: "sim s s'"
  obtain ok s0 where on: "okNodeStep cf n s = (ok, s0)" by force
  obtain ok' s0' where on': "okNodeStep cf n s' = (ok', s0')" by force
  from sim_okNodeStep[OF ss, of cf n] on on' have oo: "ok' = ok" and s0: "sim s0 s0'"
    by simp_all
  then have g: "gr s0' = gr s0" by (simp add: sim_def)
  show "simRes (mkSearch tgt cf f n s) (mkSearch tgt cf f n s')"
  proof (cases ok)
    case False
    with on on' oo s0 show ?thesis by (simp add: mkSearch_unfold simRes_Ret)
  next
    case True
    show ?thesis
    proof (cases "index (gr s0) n")
      case None
      with on on' oo s0 g True show ?thesis by (simp add: mkSearch_unfold simRes_Panic)
    next
      case (Some to)
      obtain p s1 where ao: "arcOrder cf (length to) s0 = (p, s1)" by force
      obtain p' s1' where ao': "arcOrder cf (length to) s0' = (p', s1')" by force
      from sim_arcOrder[OF s0, of cf "length to"] ao ao' have pp: "p' = p" and s1: "sim s1 s1'"
        by simp_all
      have "keepsSim (forWhile (\<lambda>x s. case okArcStep cf n x s of (ok, s1) \<Rightarrow>
                       if \<not> ok then Ret False s1 else atIndex tgt to x f s1) p)"
      proof (rule sim_forWhile, rule keepsSimI)
        fix x and a a' :: "('g, 'u, 'r) store"
        assume aa: "sim a a'"
        obtain ok1 a1 where oa: "okArcStep cf n x a = (ok1, a1)" by force
        obtain ok1' a1' where oa': "okArcStep cf n x a' = (ok1', a1')" by force
        from sim_okArcStep[OF aa, of cf n x] oa oa' have "ok1' = ok1" "sim a1 a1'" by simp_all
        with oa oa' keepsSimD[OF sim_atIndex[OF f], of a1 a1' tgt to x]
        show "simRes (case okArcStep cf n x a of (ok, s1) \<Rightarrow>
                       if \<not> ok then Ret False s1 else atIndex tgt to x f s1)
                     (case okArcStep cf n x a' of (ok, s1) \<Rightarrow>
                       if \<not> ok then Ret False s1 else atIndex tgt to x f s1)"
          by (simp add: simRes_Ret)
      qed
      from keepsSimD[OF this s1] show ?thesis using Some ao ao' pp g on on' oo True
        by (simp add: mkSearch_unfold)
    qed
  qed
qed

lemma sim_search: "keepsSim (search k (mkSearch tgt cf) n)"
proof (induction k arbitrary: n)
  case 0
  show ?case by (simp add: keepsSim_def simRes_def)
next
  case (Suc k)
  show ?case
  proof (rule keepsSimI)
    fix s s' :: "('a, 'b, 'c) store"
    assume ss: "sim s s'"
    have v: "simRes (visitedFunc n s) (visitedFunc n s')"
      using sim_visitedFunc ss by (rule keepsSimD)
    have m: "keepsSim (mkSearch tgt cf (search k (mkSearch tgt cf)) n)"
      by (rule sim_mkSearch) (rule Suc.IH)
    show "simRes (search (Suc k) (mkSearch tgt cf) n s)
            (search (Suc k) (mkSearch tgt cf) n s')"
    proof (cases "visitedFunc n s")
      case (Ret seen s1)
      with v obtain s1' where "visitedFunc n s' = Ret seen s1'" "sim s1 s1'"
        by (auto simp: simRes_iff)
      with Ret keepsSimD[OF m this(2)] show ?thesis by (simp add: simRes_iff)
    next
      case (Panic s1)
      with v show ?thesis by (auto simp: simRes_iff)
    next
      case Timeout
      with v show ?thesis by (auto simp: simRes_iff)
    qed
  qed
qed

lemma simRes_dropResult: "simRes r r' \<Longrightarrow> simRes (dropResult r) (dropResult r')"
  by (cases r) (auto simp: simRes_iff dropResult_def)

lemma sim_dfFunc: "keepsSim (dfFunc tgt k cf n)"
proof (cases "traversalMode cf")
  case True
  have "dfFunc tgt k cf n = traverse k (mkTraverse tgt cf) n"
    by (simp add: dfFunc_traverse[OF True])
  then show ?thesis using sim_traverse[of k tgt cf n] by simp
next
  case False
  show ?thesis
  proof (rule keepsSimI)
    fix s s' :: "('a, 'b, 'c) store"
    assume "sim s s'"
    with sim_search have "simRes (search k (mkSearch tgt cf) n s) (search k (mkSearch tgt cf) n s')"
      by (rule keepsSimD)
    then show "simRes (dfFunc tgt k cf n s) (dfFunc tgt k cf n s')"
      unfolding dfFunc_search[OF False] by (rule simRes_dropResult)
  qed
qed

lemma digits_marked: "digits b' = digits b \<Longrightarrow> marked b' = marked b"
  by (simp add: marked_def Bits_Bit_def)

lemma sameWorld_leave:
  assumes "sim st st'"
  shows "sameWorld (leave wrap st) (leave wrap st')"
proof -
  from assms have d: "digits (vis st') = digits (vis st)" by (simp add: sim_def)
  then have "marked (vis st') = marked (vis st)" by (rule digits_marked)
  with assms d show ?thesis by (simp add: sameWorld_def leave_def sim_def markedIn_def)
qed

lemma sameRun_finish:
  assumes "simRes r r'"
  shows "sameRun (finish wrap r) (finish wrap r')"
proof (cases r)
  case (Ret a st)
  with assms obtain st' where "r' = Ret a st'" "sim st st'" by (auto simp: simRes_iff)
  with Ret sameWorld_leave[OF this(2), of wrap] show ?thesis
    by (simp add: sameRun_def finish_def)
next
  case (Panic st)
  with assms obtain st' where "r' = Panic st'" "sim st st'" by (auto simp: simRes_iff)
  with Panic sameWorld_leave[OF this(2), of wrap] show ?thesis
    by (simp add: sameRun_def finish_def)
next
  case Timeout
  with assms show ?thesis by (simp add: simRes_iff sameRun_def finish_def)
qed

theorem Search_sized_counterexample:
  "visited (configure [] :: (unit, unit) config) = None \<and>
   order (AdjacencyList [[], [], []]) = 3 \<and>
   Search 4 (AdjacencyList [[], [], []]) 0 [] () () =
     Ret None \<lparr>graph = AdjacencyList [[], [], []], bits = Some \<lparr>nbits = 1, digits = 1\<rparr>,
                user = (), gen = (), events = [Visit 0]\<rparr> \<and>
   Search 4 (AdjacencyList [[], [], []]) 0 [Visited (newBits 3)] () () =
     Ret None \<lparr>graph = AdjacencyList [[], [], []], bits = Some \<lparr>nbits = 3, digits = 1\<rparr>,
                user = (), gen = (), events = [Visit 0]\<rparr>"
proof -
  have "Search 4 (AdjacencyList [[], [], []]) 0 [] () () =
     Ret None \<lparr>graph = AdjacencyList [[], [], []], bits = Some \<lparr>nbits = 1, digits = 1\<rparr>,
                user = (), gen = (), events = [Visit 0]\<rparr>"
    by code_simp
  moreover have "Search 4 (AdjacencyList [[], [], []]) 0 [Visited (newBits 3)] () () =
     Ret None \<lparr>graph = AdjacencyList [[], [], []], bits = Some \<lparr>nbits = 3, digits = 1\<rparr>,
                user = (), gen = (), events = [Visit 0]\<rparr>"
    by code_simp
  moreover have "visited (configure [] :: (unit, unit) config) = None"
    "order (AdjacencyList [[], [], []]) = 3"
    by (simp_all add: configure_def config0_def order_def)
  ultimately show ?thesis by simp
qed

text \<open>
  Claim C8, amended. When no visited bitset is supplied and the configuration passes the
  two visitor checks, \<open>Search\<close> puts the zero value \<open>graph.Bits{}\<close> in its place, a
  bitset that holds no bit, whatever the graph: the run is the very run with a
  caller-supplied zero value. And it agrees with the run given any caller-supplied
  all-clear bitset, of whatever size, in everything but the size of the bitset: the two
  end the same way, with the same error or nil, graph, caller's state, generator, history
  and bits.
\<close>

theorem Search_without_bitset:
  assumes "visited (configure options) = None" and "\<not> conflict (configure options)"
    and "digits b = 0"
  shows "Search k g start options u r = Search k g start (options @ [Visited zeroBits]) u r \<and>
         sameRun (Search k g start options u r)
                 (Search k g start (options @ [Visited b]) u r)"
proof -
  let ?cf = "configure options"
  have c: "\<not> conflict (configure (options @ [Visited c]))" for c
    using assms(2) by (simp add: configure_snoc Visited_def conflict_def)
  have v: "visitedBits ?cf = zeroBits" "visitedBits (Visited c ?cf) = c" for c
    using assms(1) by (simp_all add: visitedBits_def Visited_def)
  have d: "dfFunc tgt k (Visited c ?cf) = dfFunc tgt k ?cf" for tgt :: "'g \<Rightarrow> NI" and c
    by (simp add: Visited_def dfFunc_visited)
  have 1: "Search k g start options u r = Search k g start (options @ [Visited zeroBits]) u r"
    by (cases g) (simp_all add: Search_unfold[OF assms(2)] Search_unfold[OF c] configure_snoc
        Let_def v d)
  have s: "sim (enter t zeroBits u r) (enter t b u r)" for t :: "'g list list"
    using assms(3) by (simp add: sim_def enter_def zeroBits_def)
  have 2: "sameRun (Search k g start options u r) (Search k g start (options @ [Visited b]) u r)"
  proof (cases g)
    case (AdjacencyList t)
    from keepsSimD[OF sim_dfFunc s, of "\<lambda>to. to" k ?cf start t]
    show ?thesis
      by (simp add: AdjacencyList Search_unfold[OF assms(2)] Search_unfold[OF c] configure_snoc
          Let_def v d sameRun_finish)
  next
    case (LabeledAdjacencyList t)
    from keepsSimD[OF sim_dfFunc s, of To k ?cf start t]
    show ?thesis
      by (simp add: LabeledAdjacencyList Search_unfold[OF assms(2)] Search_unfold[OF c]
          configure_snoc Let_def v d sameRun_finish)
  next
    case OtherValue
    have "marked b = marked zeroBits" using assms(3) by (simp add: marked_clear marked_zeroBits)
    then show ?thesis using assms(3)
      by (simp add: OtherValue Search_unfold[OF assms(2)] Search_unfold[OF c] configure_snoc
          Let_def v sameRun_def sameWorld_def markedIn_def zeroBits_def)
  qed
  from 1 2 show ?thesis by simp
qed

theorem Search_without_bitset_witness:
  "Search 4 (AdjacencyList [[1, 2], [2], [0]]) 0 [] () () =
     Search 4 (AdjacencyList [[1, 2], [2], [0]]) 0 [Visited zeroBits] () () \<and>
   sameRun (Search 4 (AdjacencyList [[1, 2], [2], [0]]) 0 [] () ())
           (Search 4 (AdjacencyList [[1, 2], [2], [0]]) 0 [Visited (newBits 3)] () ()) \<and>
   Search 4 (AdjacencyList [[1, 2], [2], [0]]) 0 [] () () =
     Ret None \<lparr>graph = AdjacencyList [[1, 2], [2], [0]], bits = Some \<lparr>nbits = 3, digits = 7\<rparr>,
                user = (), gen = (), events = [Visit 0, Visit 1, Visit 2]\<rparr>"
proof -
  have h: "visited (configure [] :: (unit, unit) config) = None"
    "\<not> conflict (configure [] :: (unit, unit) config)" "digits (newBits 3) = 0"
    by (simp_all add: configure_def config0_def conflict_def newBits_def)
  have run: "Search 4 (AdjacencyList [[1, 2], [2], [0]]) 0 [] () () =
     Ret None \<lparr>graph = AdjacencyList [[1, 2], [2], [0]], bits = Some \<lparr>nbits = 3, digits = 7\<rparr>,
                user = (), gen = (), events = [Visit 0, Visit 1, Visit 2]\<rparr>"
    by code_simp
  note t = Search_without_bitset[OF h, where k = 4 and g = "AdjacencyList [[1, 2], [2], [0]]"
      and start = 0 and u = "()" and r = "()"]
  show ?thesis
    by (intro conjI conjunct1[OF t, simplified] conjunct2[OF t, simplified] run)
qed

section \<open>Kruskal\<close>

lemma Kruskal_example_run: "Kruskal exampleEdges = Some (exampleTree, 110)"
  unfolding exampleEdges_def exampleTree_def by code_simp


lemma example_arcs:
  "arcPairs exampleTree = {(0, 4), (4, 0), (2, 3), (3, 2), (0, 1), (1, 0), (1, 2), (2, 1)}"
  unfolding exampleTree_def arcPairs_def by (auto simp: enumerate_eq_zip upt_rec)

lemma example_weights:
  "map (weightOf real_of_int) (spanningTrees exampleEdges) =
     [110, 160, 120, 130, 170, 140, 190, 160, 170, 210, 150, 160, 200, 120, 170,
      140, 150, 190, 130, 140, 180]"
  by (simp add: spanningTrees_def exampleEdges_def weightOf_def connects_def grow_def
      eval_nat_numeral upt_rec)

lemma example_min:
  "Min (set (map (weightOf (WeightFunc exampleEdges)) (spanningTrees exampleEdges))) = 110"
proof -
  have "WeightFunc exampleEdges = real_of_int" by (simp add: exampleEdges_def)
  then show ?thesis by (simp add: example_weights)
qed


lemma example_tree_spans:
  "[\<lparr>N1 = 0, N2 = 1, LI = 30\<rparr>, \<lparr>N1 = 0, N2 = 4, LI = 10\<rparr>, \<lparr>N1 = 1, N2 = 2, LI = 50\<rparr>,
    \<lparr>N1 = 2, N2 = 3, LI = 20\<rparr>] \<in> set (spanningTrees exampleEdges)"
  by (simp add: spanningTrees_def exampleEdges_def connects_def grow_def eval_nat_numeral upt_rec)

text \<open>
  Claim C5. On the five-node graph of the worked example \<open>Kruskal\<close> returns the graph
  with the edges 0-4, 2-3, 0-1 and 1-2 (each as its two reciprocal arcs) and the total
  weight 110; these four edges are a spanning tree of the graph, and 110 is the least
  weight of a spanning tree of the graph.
\<close>

theorem Kruskal_worked_example:
  "Kruskal exampleEdges = Some (exampleTree, 110) \<and>
   arcPairs exampleTree = {(0, 4), (4, 0), (2, 3), (3, 2), (0, 1), (1, 0), (1, 2), (2, 1)} \<and>
   [\<lparr>N1 = 0, N2 = 1, LI = 30\<rparr>, \<lparr>N1 = 0, N2 = 4, LI = 10\<rparr>, \<lparr>N1 = 1, N2 = 2, LI = 50\<rparr>,
    \<lparr>N1 = 2, N2 = 3, LI = 20\<rparr>] \<in> set (spanningTrees exampleEdges) \<and>
   Min (set (map (weightOf (WeightFunc exampleEdges)) (spanningTrees exampleEdges))) = 110"
  using Kruskal_example_run example_arcs example_tree_spans example_min by simp

subsection \<open>Sorted and unsorted input\<close>






section \<open>Topological sort\<close>

lemma arcsOf_node:
  "0 \<le> n \<Longrightarrow> nat n < length g \<Longrightarrow> ((n, v) \<in> arcsOf (\<lambda>to. to) g) = (v \<in> set (g ! nat n))"
  by (simp add: arcsOf_def)

lemma arcsOf_source: "(u, v) \<in> arcsOf tgt g \<Longrightarrow> 0 \<le> u \<and> nat u < length g"
  by (simp add: arcsOf_def)

lemma chain_reach: "chain g S \<Longrightarrow> x \<in> set S \<Longrightarrow> (x, hd S) \<in> (arcsOf (\<lambda>to. to) g)\<^sup>*"
proof (induction g S rule: chain.induct)
  case (3 g s s' S)
  show ?case
  proof (cases "x = s")
    case True
    then show ?thesis by simp
  next
    case False
    with 3 have "(x, s') \<in> (arcsOf (\<lambda>to. to) g)\<^sup>*" by simp
    moreover from 3 have "(s', s) \<in> arcsOf (\<lambda>to. to) g" by simp
    ultimately show ?thesis by simp
  qed
qed simp_all

lemma stack_length:
  assumes "stackOk g S fin"
  shows "length S \<le> length g"
proof -
  from assms have d: "distinct S" by (simp add: stackOk_def)
  have r: "set S \<subseteq> int ` {0..<length g}"
  proof
    fix x assume "x \<in> set S"
    with assms have "0 \<le> x" "nat x < length g" by (simp_all add: stackOk_def)
    then have "nat x \<in> {0..<length g}" "x = int (nat x)" by simp_all
    then show "x \<in> int ` {0..<length g}" by (rule rev_image_eqI)
  qed
  have "length S = card (set S)" using d by (simp add: distinct_card)
  also have "\<dots> \<le> card (int ` {0..<length g})" using r by (intro card_mono) simp_all
  also have "\<dots> \<le> length g" by (metis card_image_le card_atLeastLessThan diff_zero finite_atLeastLessThan)
  finally show ?thesis .
qed

lemma closedPost_snoc:
  assumes c: "closedPost g fin" and n: "n \<notin> set fin" "0 \<le> n" "nat n < length g"
    and s: "\<And>v. (n, v) \<in> arcsOf (\<lambda>to. to) g \<Longrightarrow> v \<in> set fin"
  shows "closedPost g (fin @ [n])"
  unfolding closedPost_def
proof (intro conjI allI impI ballI)
  show "distinct (fin @ [n])" using c n by (simp add: closedPost_def)
next
  fix x assume "x \<in> set (fin @ [n])"
  then show "0 \<le> x" "nat x < length g" using c n by (auto simp: closedPost_def)
next
  fix i v assume i: "i < length (fin @ [n])" and a: "((fin @ [n]) ! i, v) \<in> arcsOf (\<lambda>to. to) g"
  show "\<exists>j<i. (fin @ [n]) ! j = v"
  proof (cases "i < length fin")
    case True
    with a have "(fin ! i, v) \<in> arcsOf (\<lambda>to. to) g" by (simp add: nth_append)
    with c True obtain j where "j < i" "fin ! j = v" unfolding closedPost_def by blast
    with True show ?thesis by (auto simp: nth_append intro!: exI[of _ j])
  next
    case False
    with i have e: "i = length fin" by simp
    with a have "(n, v) \<in> arcsOf (\<lambda>to. to) g" by simp
    then have "v \<in> set fin" by (rule s)
    then obtain j where "j < length fin" "fin ! j = v" by (auto simp: in_set_conv_nth)
    with e show ?thesis by (auto simp: nth_append intro!: exI[of _ j])
  qed
qed

lemma walked_True:
  "closedPost g fin' \<Longrightarrow> fin' = fin @ new \<Longrightarrow> X \<subseteq> set fin' \<Longrightarrow> set S \<inter> set fin' = {}
     \<Longrightarrow> walked g S fin X (Ret True fin')"
  unfolding walked_def by blast

lemma walked_False: "hasCycle g \<Longrightarrow> walked g S fin X (Ret False fin')"
  unfolding walked_def by blast

lemma walked_cases:
  assumes "walked g S fin X r"
  obtains (go) fin' new where "r = Ret True fin'" "closedPost g fin'" "fin' = fin @ new"
      "X \<subseteq> set fin'" "set S \<inter> set fin' = {}"
    | (stop) fin' where "r = Ret False fin'" "hasCycle g"
  using assms unfolding walked_def by blast

end
